theory Spec2Isabelle
  imports Main "HOL-Library.Word" "HOL-Library.Signed_Division"
begin

unbundle bit_operations_syntax

section \<open>Bitmaps of the filesystem (fs.c)\<close>

text \<open>
  The two bitmaps \<open>inode_bmap\<close> and \<open>dblk_bmap\<close> are arrays of \<open>BITMAP_ENTRIES\<close>
  bytes. A byte is an 8-bit word, an array a list of bytes. C's \<open>int\<close> values that
  index or count are \<open>int\<close>; C's \<open>/\<close> and \<open>%\<close> truncate towards zero, which is
  \<open>sdiv\<close> and \<open>smod\<close>.
\<close>

type_synonym byte = "8 word"

definition BITMAP_ENTRIES :: nat where
  "BITMAP_ENTRIES = 256"

text \<open>
  \<open>check_bit\<close>: bit \<open>i\<close> of the bitmap is bit \<open>7 - i % 8\<close> of byte \<open>i / 8\<close>.
  \<open>msk k\<close> is the mask of the \<open>k\<close>-th bit of a byte counted from the most
  significant one (\<open>0x80\<close> for \<open>k = 0\<close>, \<open>0x01\<close> for \<open>k = 7\<close>).
\<close>

definition msk :: "nat \<Rightarrow> byte" where
  "msk k = push_bit (7 - k) 1"

definition check_bit :: "int \<Rightarrow> byte list \<Rightarrow> int" where
  "check_bit i bitmap =
     (let index = i sdiv 8; b = 7 - (i smod 8)
      in if (bitmap ! nat index) AND push_bit (nat b) 1 \<noteq> 0 then 1 else 0)"

text \<open>
  The \<open>if\<close>/\<open>else if\<close> chain in the body of the loop of \<open>get_free_entry\<close>: the first
  clear bit from the most significant one is set, and its offset in the byte is
  returned. When no branch fires the loop goes on (\<open>None\<close>).
\<close>

definition take_msb_first :: "byte \<Rightarrow> (nat \<times> byte) option" where
  "take_msb_first b =
     (if b AND 0x80 = 0 then Some (0, b OR 0x80)
      else if b AND 0x40 = 0 then Some (1, b OR 0x40)
      else if b AND 0x20 = 0 then Some (2, b OR 0x20)
      else if b AND 0x10 = 0 then Some (3, b OR 0x10)
      else if b AND 0x08 = 0 then Some (4, b OR 0x08)
      else if b AND 0x04 = 0 then Some (5, b OR 0x04)
      else if b AND 0x02 = 0 then Some (6, b OR 0x02)
      else if b AND 0x01 = 0 then Some (7, b OR 0x01)
      else None)"

text \<open>
  \<open>get_free_entry\<close>: the loop runs over \<open>i < BITMAP_ENTRIES / 8\<close>, that is over the
  first 32 bytes of the array. The result is the entry number (or \<open>-1\<close>) and the
  bitmap as the call leaves it.
\<close>

function get_free_entry_from :: "nat \<Rightarrow> byte list \<Rightarrow> int \<times> byte list" where
  "get_free_entry_from i bitmap =
     (if i < BITMAP_ENTRIES div 8 then
        (if bitmap ! i = 0xff then get_free_entry_from (i + 1) bitmap
         else (case take_msb_first (bitmap ! i) of
                 Some (k, b') \<Rightarrow> (int (i * 8 + k), bitmap[i := b'])
               | None \<Rightarrow> get_free_entry_from (i + 1) bitmap))
      else (-1, bitmap))"
  by pat_completeness auto
termination
  by (relation "measure (\<lambda>(i, bitmap). BITMAP_ENTRIES div 8 - i)") auto

definition get_free_entry :: "byte list \<Rightarrow> int \<times> byte list" where
  "get_free_entry bitmap = get_free_entry_from 0 bitmap"

text \<open>
  \<open>free_bitmap_entry\<close>: an entry \<open>\<ge> BITMAP_ENTRIES\<close> is refused with \<open>-1\<close>. The
  \<open>switch\<close> on \<open>entry % 8\<close> has the cases 0 to 7 only, so for a negative entry that
  is no multiple of 8 no case fires and the bitmap is left as it is. For a negative
  multiple of 8 the store goes to an address before the array: the array itself is
  not changed (the memory around it is no part of this model).
\<close>

definition clear_bit_at :: "int \<Rightarrow> byte \<Rightarrow> byte list \<Rightarrow> byte list" where
  "clear_bit_at idx m bitmap =
     (if 0 \<le> idx \<and> idx < int (length bitmap)
      then bitmap[nat idx := (bitmap ! nat idx) AND NOT m]
      else bitmap)"

definition free_bitmap_entry :: "int \<Rightarrow> byte list \<Rightarrow> int \<times> byte list" where
  "free_bitmap_entry entry bitmap =
     (if entry \<ge> int BITMAP_ENTRIES then (-1, bitmap)
      else
        (let idx = entry sdiv 8; c = entry smod 8
         in if c = 0 then (0, clear_bit_at idx 0x80 bitmap)
            else if c = 1 then (0, clear_bit_at idx 0x40 bitmap)
            else if c = 2 then (0, clear_bit_at idx 0x20 bitmap)
            else if c = 3 then (0, clear_bit_at idx 0x10 bitmap)
            else if c = 4 then (0, clear_bit_at idx 0x08 bitmap)
            else if c = 5 then (0, clear_bit_at idx 0x04 bitmap)
            else if c = 6 then (0, clear_bit_at idx 0x02 bitmap)
            else if c = 7 then (0, clear_bit_at idx 0x01 bitmap)
            else (0, bitmap)))"

text \<open>
  A bitmap whose first 32 bytes are \<open>0xff\<close> and whose other 224 bytes are zero.
\<close>

definition prefix_taken_bitmap :: "byte list" where
  "prefix_taken_bitmap = replicate 32 0xff @ replicate 224 0"

section \<open>Scheduler (scheduler.c)\<close>

text \<open>
  Task control blocks live in a static table and are linked through their \<open>next\<close>
  and \<open>previous\<close> pointers. A pointer to a PCB is an address, \<open>0\<close> is the null
  pointer, and the table is a store from addresses to PCBs, so that two pointers to
  the same PCB alias as they do in the C code. Only the fields that the scheduler and
  the synchronisation primitives read or write are kept.

  A function that dereferences a null pointer, or that never returns (the
  \<open>while(1)\<close> of the scheduler when the last task has exited), has the result
  \<open>None\<close>.
\<close>

datatype task_status = STATUS_FIRST_TIME | STATUS_FIRST_TIME_THREAD | STATUS_READY
  | STATUS_BLOCKED | STATUS_EXITED

type_synonym pcb_ptr = nat

record pcb =
  pcb_state :: task_status
  pcb_next :: pcb_ptr
  pcb_previous :: pcb_ptr

record kernel =
  pcbs :: "pcb_ptr \<Rightarrow> pcb"
  current_running :: pcb_ptr

text \<open>
  \<open>dispatch\<close>: a task that runs for the first time becomes ready and is started
  (\<open>start_process\<close> and \<open>start_thread\<close> of entry.S jump to its entry point); any
  other task is resumed by the return through \<open>scheduler_entry\<close>.
\<close>

definition dispatch :: "kernel \<Rightarrow> kernel" where
  "dispatch k =
     (let cr = current_running k; s = pcbs k
      in if pcb_state (s cr) = STATUS_FIRST_TIME
         then k\<lparr>pcbs := s(cr := (s cr)\<lparr>pcb_state := STATUS_READY\<rparr>)\<rparr>
         else if pcb_state (s cr) = STATUS_FIRST_TIME_THREAD
         then k\<lparr>pcbs := s(cr := (s cr)\<lparr>pcb_state := STATUS_READY\<rparr>)\<rparr>
         else k)"

text \<open>
  \<open>scheduler\<close>: a blocked or exited \<open>current_running\<close> is spliced out of the ready
  ring and its two pointers are cleared; then \<open>current_running\<close> moves to the next
  task of the ring. The assignments are made one after the other on the store, in the
  order of the source.
\<close>

definition scheduler :: "kernel \<Rightarrow> kernel option" where
  "scheduler k =
     (let cr = current_running k; s = pcbs k
      in if cr = 0 then None
         else if pcb_state (s cr) = STATUS_BLOCKED \<or> pcb_state (s cr) = STATUS_EXITED then
           (if pcb_state (s cr) = STATUS_EXITED \<and> pcb_next (s cr) = cr then None
            else if pcb_previous (s cr) = 0 \<or> pcb_next (s cr) = 0 then None
            else
              (let s1 = s(pcb_previous (s cr) := (s (pcb_previous (s cr)))\<lparr>pcb_next := pcb_next (s cr)\<rparr>);
                   s2 = s1(pcb_next (s1 cr) := (s1 (pcb_next (s1 cr)))\<lparr>pcb_previous := pcb_previous (s1 cr)\<rparr>);
                   tmp = cr;
                   cr' = pcb_next (s2 cr);
                   s3 = s2(tmp := (s2 tmp)\<lparr>pcb_next := 0\<rparr>);
                   s4 = s3(tmp := (s3 tmp)\<lparr>pcb_previous := 0\<rparr>)
               in if cr' = 0 then None
                  else Some (dispatch (k\<lparr>pcbs := s4, current_running := cr'\<rparr>))))
         else if pcb_next (s cr) = 0 then None
         else Some (dispatch (k\<lparr>current_running := pcb_next (s cr)\<rparr>)))"

text \<open>
  \<open>yield\<close> and \<open>exit\<close> enter the scheduler through \<open>scheduler_entry\<close> (entry.S),
  which saves the registers of the caller, calls \<open>scheduler\<close> and restores the
  registers of the task that \<open>current_running\<close> then points to. \<open>yields n\<close> is
  \<open>n\<close> scheduling points in a row, each taken by the task running at that time.
\<close>

definition yield :: "kernel \<Rightarrow> kernel option" where
  "yield k = scheduler k"

fun yields :: "nat \<Rightarrow> kernel \<Rightarrow> kernel option" where
  "yields 0 k = Some k"
| "yields (Suc n) k = (case yield k of None \<Rightarrow> None | Some k' \<Rightarrow> yields n k')"

definition exit_task :: "kernel \<Rightarrow> kernel option" where
  "exit_task k =
     (let cr = current_running k; s = pcbs k
      in if cr = 0 then None
         else scheduler (k\<lparr>pcbs := s(cr := (s cr)\<lparr>pcb_state := STATUS_EXITED\<rparr>)\<rparr>))"

text \<open>
  \<open>block q\<close>: \<open>q\<close> is the head of the wait queue (the value of \<open>*q\<close> in the source);
  the new head is returned with the kernel state. The \<open>while\<close> loop that walks to
  the end of the queue is \<open>queue_tail\<close>; it does not return on a cyclic queue.
  The state returned is the one after the switch to the next task.
\<close>

partial_function (option) queue_tail :: "(pcb_ptr \<Rightarrow> pcb) \<Rightarrow> pcb_ptr \<Rightarrow> pcb_ptr option" where
  "queue_tail s tmp =
     (if tmp = 0 then None
      else if pcb_next (s tmp) \<noteq> 0 then queue_tail s (pcb_next (s tmp))
      else Some tmp)"

definition block :: "pcb_ptr \<Rightarrow> kernel \<Rightarrow> (pcb_ptr \<times> kernel) option" where
  "block q k =
     (let cr = current_running k; s = pcbs k
      in if cr = 0 then None
         else
           (let s1 = s(cr := (s cr)\<lparr>pcb_state := STATUS_BLOCKED\<rparr>)
            in if q = 0 then
                 (case scheduler (k\<lparr>pcbs := s1\<rparr>) of
                    None \<Rightarrow> None
                  | Some k' \<Rightarrow> Some (cr, k'))
               else
                 (case queue_tail s1 q of
                    None \<Rightarrow> None
                  | Some tmp \<Rightarrow>
                      (case scheduler (k\<lparr>pcbs := s1(tmp := (s1 tmp)\<lparr>pcb_next := cr\<rparr>)\<rparr>) of
                         None \<Rightarrow> None
                       | Some k' \<Rightarrow> Some (q, k')))))"

text \<open>
  \<open>unblock q\<close>: takes the head of the wait queue, makes it ready and links it into
  the ready ring between \<open>current_running->previous\<close> and \<open>current_running\<close>.
  The new head of the queue is returned with the kernel state.
\<close>

definition unblock :: "pcb_ptr \<Rightarrow> kernel \<Rightarrow> (pcb_ptr \<times> kernel) option" where
  "unblock q k =
     (let tmp = q; cr = current_running k; s = pcbs k
      in if tmp = 0 \<or> cr = 0 \<or> pcb_previous (s cr) = 0 then None
         else
           (let q' = pcb_next (s tmp);
                s1 = s(tmp := (s tmp)\<lparr>pcb_state := STATUS_READY\<rparr>);
                s2 = s1(tmp := (s1 tmp)\<lparr>pcb_previous := pcb_previous (s1 cr)\<rparr>);
                s3 = s2(tmp := (s2 tmp)\<lparr>pcb_next := cr\<rparr>);
                s4 = s3(pcb_previous (s3 cr) := (s3 (pcb_previous (s3 cr)))\<lparr>pcb_next := tmp\<rparr>);
                s5 = s4(cr := (s4 cr)\<lparr>pcb_previous := tmp\<rparr>)
            in Some (q', k\<lparr>pcbs := s5\<rparr>)))"

subsection \<open>The lists that the pointers represent\<close>

text \<open>
  \<open>wait_queue s q ws\<close>: from the head \<open>q\<close> the \<open>next\<close> pointers run through the
  tasks \<open>ws\<close>, in this order, and end with the null pointer.
  \<open>ready_ring s xs\<close>: the tasks \<open>xs\<close> form a circular doubly-linked list, each
  one pointing with \<open>next\<close> to its successor in \<open>xs\<close> (the last one to the first)
  and with \<open>previous\<close> back. \<open>runnable\<close>: neither blocked nor exited.
\<close>

definition runnable :: "(pcb_ptr \<Rightarrow> pcb) \<Rightarrow> pcb_ptr \<Rightarrow> bool" where
  "runnable s p \<longleftrightarrow> pcb_state (s p) \<noteq> STATUS_BLOCKED \<and> pcb_state (s p) \<noteq> STATUS_EXITED"

fun wait_queue :: "(pcb_ptr \<Rightarrow> pcb) \<Rightarrow> pcb_ptr \<Rightarrow> pcb_ptr list \<Rightarrow> bool" where
  "wait_queue s q [] = (q = 0)"
| "wait_queue s q (w # ws) = (q = w \<and> w \<noteq> 0 \<and> wait_queue s (pcb_next (s w)) ws)"

definition ready_ring :: "(pcb_ptr \<Rightarrow> pcb) \<Rightarrow> pcb_ptr list \<Rightarrow> bool" where
  "ready_ring s xs \<longleftrightarrow>
     xs \<noteq> [] \<and> distinct xs \<and> 0 \<notin> set xs \<and>
     map (\<lambda>p. pcb_next (s p)) xs = rotate1 xs \<and>
     map (\<lambda>p. pcb_previous (s p)) (rotate1 xs) = xs"

section \<open>Locks and semaphores (thread.c)\<close>

text \<open>
  \<open>enter_critical\<close> and \<open>leave_critical\<close> switch the interrupts off and on; they
  are declared in interrupt.h and change nothing of the state modelled here.

  A call of a primitive is made by the task \<open>current_running\<close>. It either runs to
  its end (\<open>Returns\<close>), or the caller is suspended inside it by \<open>block\<close>
  (\<open>Switches\<close>, with the state after the switch to the next task), or it
  dereferences a null pointer or never comes back (\<open>Fault\<close>).
\<close>

datatype 'a outcome = Returns 'a | Switches 'a | Fault

datatype lock_status = UNLOCKED | LOCKED

record lock =
  status :: lock_status
  l_waiting :: pcb_ptr

record semaphore =
  counter :: int
  s_waiting :: pcb_ptr

definition lock_init :: "lock \<Rightarrow> lock" where
  "lock_init l = l\<lparr>status := UNLOCKED, l_waiting := 0\<rparr>"

definition lock_acquire_helper :: "lock \<Rightarrow> kernel \<Rightarrow> (lock \<times> kernel) outcome" where
  "lock_acquire_helper l k =
     (if status l = UNLOCKED then Returns (l\<lparr>status := LOCKED\<rparr>, k)
      else (case block (l_waiting l) k of
              None \<Rightarrow> Fault
            | Some (q', k') \<Rightarrow> Switches (l\<lparr>l_waiting := q'\<rparr>, k')))"

definition lock_acquire :: "lock \<Rightarrow> kernel \<Rightarrow> (lock \<times> kernel) outcome" where
  "lock_acquire l k = lock_acquire_helper l k"

definition lock_release :: "lock \<Rightarrow> kernel \<Rightarrow> (lock \<times> kernel) outcome" where
  "lock_release l k =
     (if l_waiting l = 0 then Returns (l\<lparr>status := UNLOCKED\<rparr>, k)
      else (case unblock (l_waiting l) k of
              None \<Rightarrow> Fault
            | Some (q', k') \<Rightarrow> Returns (l\<lparr>l_waiting := q'\<rparr>, k')))"

definition semaphore_init :: "semaphore \<Rightarrow> int \<Rightarrow> semaphore" where
  "semaphore_init s v = s\<lparr>s_waiting := 0, counter := v\<rparr>"

definition semaphore_up :: "semaphore \<Rightarrow> kernel \<Rightarrow> (semaphore \<times> kernel) outcome" where
  "semaphore_up s k =
     (let s1 = s\<lparr>counter := counter s + 1\<rparr>
      in if counter s1 \<ge> 0 then
           (if s_waiting s1 \<noteq> 0 then
              (case unblock (s_waiting s1) k of
                 None \<Rightarrow> Fault
               | Some (q', k') \<Rightarrow> Returns (s1\<lparr>s_waiting := q'\<rparr>, k'))
            else Returns (s1, k))
         else Returns (s1, k))"

definition semaphore_down :: "semaphore \<Rightarrow> kernel \<Rightarrow> (semaphore \<times> kernel) outcome" where
  "semaphore_down s k =
     (let s1 = s\<lparr>counter := counter s - 1\<rparr>
      in if counter s1 < 0 then
           (case block (s_waiting s1) k of
              None \<Rightarrow> Fault
            | Some (q', k') \<Rightarrow> Switches (s1\<lparr>s_waiting := q'\<rparr>, k'))
         else Returns (s1, k))"

text \<open>
  A sequence of \<open>semaphore_up\<close> and \<open>semaphore_down\<close> calls on one semaphore,
  each made by the task that is running when its turn comes.
\<close>

datatype sem_call = Up | Down

fun sem_calls :: "sem_call list \<Rightarrow> semaphore \<times> kernel \<Rightarrow> (semaphore \<times> kernel) option" where
  "sem_calls [] sk = Some sk"
| "sem_calls (c # cs) (s, k) =
     (case (case c of Up \<Rightarrow> semaphore_up s k | Down \<Rightarrow> semaphore_down s k) of
        Returns sk' \<Rightarrow> sem_calls cs sk'
      | Switches sk' \<Rightarrow> sem_calls cs sk'
      | Fault \<Rightarrow> None)"

subsection \<open>Concrete kernel states\<close>

text \<open>
  \<open>ring3\<close>: the tasks 1, 2, 3 are ready and form the ring, task 1 is running.
  \<open>ring2_waiting1\<close>: the tasks 1 and 2 form the ring, task 1 is running, task 3 is
  blocked and alone on a wait queue whose head is 3.
\<close>

definition idle_pcb :: pcb where
  "idle_pcb = \<lparr>pcb_state = STATUS_EXITED, pcb_next = 0, pcb_previous = 0\<rparr>"

definition ring3 :: kernel where
  "ring3 = \<lparr>pcbs = (\<lambda>_. idle_pcb)
      (1 := \<lparr>pcb_state = STATUS_READY, pcb_next = 2, pcb_previous = 3\<rparr>,
       2 := \<lparr>pcb_state = STATUS_READY, pcb_next = 3, pcb_previous = 1\<rparr>,
       3 := \<lparr>pcb_state = STATUS_READY, pcb_next = 1, pcb_previous = 2\<rparr>),
     current_running = 1\<rparr>"

definition ring2_waiting1 :: kernel where
  "ring2_waiting1 = \<lparr>pcbs = (\<lambda>_. idle_pcb)
      (1 := \<lparr>pcb_state = STATUS_READY, pcb_next = 2, pcb_previous = 2\<rparr>,
       2 := \<lparr>pcb_state = STATUS_READY, pcb_next = 1, pcb_previous = 1\<rparr>,
       3 := \<lparr>pcb_state = STATUS_BLOCKED, pcb_next = 0, pcb_previous = 0\<rparr>),
     current_running = 1\<rparr>"

definition unblock_then_yield :: "pcb_ptr \<Rightarrow> kernel \<Rightarrow> kernel option" where
  "unblock_then_yield q k = (case unblock q k of None \<Rightarrow> None | Some (q', k') \<Rightarrow> yield k')"

section \<open>Condition variables (thread.c)\<close>

text \<open>
  \<open>condition_wait\<close> releases the lock and blocks the caller on the condition; the
  caller takes the lock again (\<open>lock_acquire_helper\<close>) only after it has been
  released from the queue and scheduled, so the call as made here ends with the switch
  to the next task. \<open>condition_broadcast\<close> unblocks until the queue is empty; it
  has the result \<open>None\<close> when \<open>unblock\<close> fails or the loop does not end.
\<close>

record condition =
  c_waiting :: pcb_ptr

definition condition_init :: "condition \<Rightarrow> condition" where
  "condition_init c = c\<lparr>c_waiting := 0\<rparr>"

definition condition_wait :: "lock \<Rightarrow> condition \<Rightarrow> kernel \<Rightarrow> (lock \<times> condition \<times> kernel) outcome" where
  "condition_wait m c k =
     (case lock_release m k of
        Returns (m', k') \<Rightarrow>
          (case block (c_waiting c) k' of
             None \<Rightarrow> Fault
           | Some (q', k'') \<Rightarrow> Switches (m', c\<lparr>c_waiting := q'\<rparr>, k''))
      | Switches x \<Rightarrow> Fault
      | Fault \<Rightarrow> Fault)"

definition condition_signal :: "condition \<Rightarrow> kernel \<Rightarrow> (condition \<times> kernel) option" where
  "condition_signal c k =
     (if c_waiting c \<noteq> 0 then
        (case unblock (c_waiting c) k of
           None \<Rightarrow> None
         | Some (q', k') \<Rightarrow> Some (c\<lparr>c_waiting := q'\<rparr>, k'))
      else Some (c, k))"

partial_function (option) condition_broadcast :: "condition \<Rightarrow> kernel \<Rightarrow> (condition \<times> kernel) option" where
  "condition_broadcast c k =
     (if c_waiting c \<noteq> 0 then
        (case unblock (c_waiting c) k of
           None \<Rightarrow> None
         | Some (q', k') \<Rightarrow> condition_broadcast (c\<lparr>c_waiting := q'\<rparr>) k')
      else Some (c, k))"

section \<open>Mailboxes (mbox.c)\<close>

text \<open>
  Modelled from the spec: mbox.h is not under src. It declares \<open>mbox_t\<close> (the fields
  used by mbox.c are kept, the lock \<open>l\<close> under the name \<open>mbox_l\<close>), the constants
  \<open>MAX_MBOX\<close> and \<open>BUFFER_SIZE\<close>, which are the lengths of the arrays \<open>Q\<close> and
  \<open>buffer\<close>, and \<open>msg_t\<close>, a header holding the payload size as an \<open>int\<close>,
  followed by the payload bytes. A message is the sequence of bytes that the pointer
  \<open>m\<close> points to, as mbox.c itself reads it through \<open>(char *)m\<close>; \<open>m->size\<close>
  is the little-endian 32-bit integer in its first four bytes. The target is 32-bit
  x86, so \<open>sizeof(m)\<close>, the size of a pointer, is 4. \<open>msg_bytes m\<close> is
  \<open>sizeof(m) + m->size\<close> as a C \<open>int\<close>.
\<close>

record mbox =
  used :: int
  mbox_l :: lock
  moreSpace :: condition
  moreData :: condition
  count :: int
  head :: int
  tail :: int
  buffer :: "byte list"

definition BUFFER_SIZE :: "mbox \<Rightarrow> int" where
  "BUFFER_SIZE q = int (length (buffer q))"

definition MAX_MBOX :: "mbox list \<Rightarrow> int" where
  "MAX_MBOX Q = int (length Q)"

definition msg_size :: "byte list \<Rightarrow> 32 word" where
  "msg_size m = word_rcat [m ! 3, m ! 2, m ! 1, m ! 0]"

definition msg_bytes :: "byte list \<Rightarrow> int" where
  "msg_bytes m = sint (4 + msg_size m)"

definition space_available :: "mbox \<Rightarrow> int" where
  "space_available q =
     (if tail q = head q \<and> count q \<noteq> 0 then 0
      else if tail q > head q then tail q - head q
      else tail q + BUFFER_SIZE q - head q)"

text \<open>
  \<open>mbox_acquire\<close>: a key out of range ends the calling task (\<open>exit\<close> does not
  return); otherwise the lock of the mailbox is acquired, which may suspend the
  caller.
\<close>

definition mbox_acquire :: "int \<Rightarrow> mbox list \<Rightarrow> kernel \<Rightarrow> (mbox list \<times> kernel) outcome" where
  "mbox_acquire key Q k =
     (if key < 0 \<or> key \<ge> MAX_MBOX Q then
        (case exit_task k of None \<Rightarrow> Fault | Some k' \<Rightarrow> Switches (Q, k'))
      else
        (case lock_acquire (mbox_l (Q ! nat key)) k of
           Returns (l', k') \<Rightarrow> Returns (Q[nat key := (Q ! nat key)\<lparr>mbox_l := l'\<rparr>], k')
         | Switches (l', k') \<Rightarrow> Switches (Q[nat key := (Q ! nat key)\<lparr>mbox_l := l'\<rparr>], k')
         | Fault \<Rightarrow> Fault))"

definition mbox_release :: "int \<Rightarrow> mbox list \<Rightarrow> kernel \<Rightarrow> (mbox list \<times> kernel) outcome" where
  "mbox_release key Q k =
     (case lock_release (mbox_l (Q ! nat key)) k of
        Returns (l', k') \<Rightarrow> Returns (Q[nat key := (Q ! nat key)\<lparr>mbox_l := l'\<rparr>], k')
      | Switches x \<Rightarrow> Fault
      | Fault \<Rightarrow> Fault)"

text \<open>
  The two copy loops: byte \<open>i\<close> of the message goes to or comes from
  \<open>buffer[(start + i) % BUFFER_SIZE]\<close>.
\<close>

definition ring_index :: "int \<Rightarrow> int \<Rightarrow> nat \<Rightarrow> nat" where
  "ring_index bsize start i = nat ((start + int i) smod bsize)"

definition copy_in :: "int \<Rightarrow> int \<Rightarrow> byte list \<Rightarrow> nat \<Rightarrow> byte list \<Rightarrow> byte list" where
  "copy_in bsize start m n buf = fold (\<lambda>i b. b[ring_index bsize start i := m ! i]) [0..<n] buf"

definition copy_out :: "int \<Rightarrow> int \<Rightarrow> byte list \<Rightarrow> nat \<Rightarrow> byte list \<Rightarrow> byte list" where
  "copy_out bsize start buf n m = fold (\<lambda>i d. d[i := buf ! ring_index bsize start i]) [0..<n] m"

text \<open>
  \<open>mbox_send\<close> and \<open>mbox_recv\<close>. Where the \<open>while\<close> loop around
  \<open>condition_wait\<close> is entered the caller is suspended and the result is
  \<open>Switches\<close>. A read outside the bytes of the message, a negative cursor and a
  buffer of size zero (a division by zero) are \<open>Fault\<close>. \<open>mbox_recv\<close> gets the
  memory \<open>m\<close> that the message is to be stored in and returns it as the call
  leaves it.
\<close>

definition mbox_send :: "int \<Rightarrow> byte list \<Rightarrow> mbox list \<Rightarrow> kernel \<Rightarrow> (mbox list \<times> kernel) outcome" where
  "mbox_send q m Q k =
     (case mbox_acquire q Q k of
        Fault \<Rightarrow> Fault
      | Switches x \<Rightarrow> Switches x
      | Returns (Q1, k1) \<Rightarrow>
          (let mb = Q1 ! nat q
           in if length m < 4 then Fault
              else if msg_bytes m > space_available mb then
                (case condition_wait (mbox_l mb) (moreSpace mb) k1 of
                   Switches (l', c', k') \<Rightarrow>
                     Switches (Q1[nat q := mb\<lparr>mbox_l := l', moreSpace := c'\<rparr>], k')
                 | Returns x \<Rightarrow> Fault
                 | Fault \<Rightarrow> Fault)
              else
                (let start = head mb; size = msg_bytes m
                 in if size > int (length m) \<or> start < 0 \<or> BUFFER_SIZE mb = 0 then Fault
                    else
                      (let mb1 = mb\<lparr>buffer := copy_in (BUFFER_SIZE mb) start m (nat size) (buffer mb)\<rparr>;
                           mb2 = mb1\<lparr>head := (start + size) smod BUFFER_SIZE mb\<rparr>;
                           mb3 = mb2\<lparr>count := count mb2 + 1\<rparr>
                       in case condition_broadcast (moreData mb3) k1 of
                            None \<Rightarrow> Fault
                          | Some (c', k2) \<Rightarrow>
                              mbox_release q (Q1[nat q := mb3\<lparr>moreData := c'\<rparr>]) k2))))"

definition mbox_recv :: "int \<Rightarrow> byte list \<Rightarrow> mbox list \<Rightarrow> kernel \<Rightarrow> (byte list \<times> mbox list \<times> kernel) outcome" where
  "mbox_recv q m Q k =
     (case mbox_acquire q Q k of
        Fault \<Rightarrow> Fault
      | Switches (Q1, k1) \<Rightarrow> Switches (m, Q1, k1)
      | Returns (Q1, k1) \<Rightarrow>
          (let mb = Q1 ! nat q
           in if count mb \<le> 0 then
                (case condition_wait (mbox_l mb) (moreData mb) k1 of
                   Switches (l', c', k') \<Rightarrow>
                     Switches (m, Q1[nat q := mb\<lparr>mbox_l := l', moreData := c'\<rparr>], k')
                 | Returns x \<Rightarrow> Fault
                 | Fault \<Rightarrow> Fault)
              else
                (let start = tail mb
                 in if length m < 4 \<or> start < 0 \<or> BUFFER_SIZE mb = 0 then Fault
                    else
                      (let m1 = copy_out (BUFFER_SIZE mb) start (buffer mb) 4 m;
                           size = msg_bytes m1
                       in if size > int (length m1) then Fault
                          else
                            (let m2 = copy_out (BUFFER_SIZE mb) start (buffer mb) (nat size) m1;
                                 mb1 = mb\<lparr>tail := (start + size) smod BUFFER_SIZE mb\<rparr>;
                                 mb2 = mb1\<lparr>count := count mb1 - 1\<rparr>
                             in case condition_broadcast (moreSpace mb2) k1 of
                                  None \<Rightarrow> Fault
                                | Some (c', k2) \<Rightarrow>
                                    (case mbox_release q (Q1[nat q := mb2\<lparr>moreSpace := c'\<rparr>]) k2 of
                                       Returns (Q2, k3) \<Rightarrow> Returns (m2, Q2, k3)
                                     | Switches x \<Rightarrow> Fault
                                     | Fault \<Rightarrow> Fault))))))"

text \<open>
  An open mailbox with no message, no waiting task, a free lock, a buffer of \<open>n\<close>
  bytes and both cursors at \<open>h\<close>.
\<close>

definition empty_mbox :: "nat \<Rightarrow> int \<Rightarrow> mbox" where
  "empty_mbox n h = \<lparr>used = 1, mbox_l = \<lparr>status = UNLOCKED, l_waiting = 0\<rparr>,
     moreSpace = \<lparr>c_waiting = 0\<rparr>, moreData = \<lparr>c_waiting = 0\<rparr>,
     count = 0, head = h, tail = h, buffer = replicate n 0\<rparr>"

section \<open>Image builder (createimage)\<close>
















section \<open>Filesystem (fs.c)\<close>

text \<open>
  Modelled from the spec: the headers fs.h, fs_error.h, inode.h, superblock.h and
  block.h are not under src. The spec gives the open modes (\<open>RDONLY = 1\<close>,
  \<open>WRONLY = 2\<close>, \<open>RDWR = 3\<close>, \<open>CREAT = 4\<close>, \<open>UNUSED = 0\<close>), the values of
  \<open>whence\<close>, \<open>FSE_OK = 0\<close> with negative values for the other error codes (they
  are numbered here in the order in which the spec lists them; only their sign and
  their being distinct is used), the block size of 512 bytes and the fields of the
  superblock, of the inodes and of the entries of the open-file table.
\<close>

definition BLOCK_SIZE :: int where "BLOCK_SIZE = 512"
definition INODE_BLOCKS :: int where "INODE_BLOCKS = 32"
definition BITMAP_BLOCKS :: int where "BITMAP_BLOCKS = 2"
definition INODE_SIZE :: int where "INODE_SIZE = 32"
definition MAX_INODES :: int where "MAX_INODES = 512"

definition MODE_UNUSED :: int where "MODE_UNUSED = 0"
definition MODE_RDONLY :: int where "MODE_RDONLY = 1"
definition MODE_WRONLY :: int where "MODE_WRONLY = 2"
definition MODE_RDWR :: int where "MODE_RDWR = 3"
definition MODE_CREAT :: int where "MODE_CREAT = 4"

definition SEEK_SET :: int where "SEEK_SET = 0"
definition SEEK_CUR :: int where "SEEK_CUR = 1"
definition SEEK_END :: int where "SEEK_END = 2"

definition FSE_OK :: int where "FSE_OK = 0"
definition FSE_ERROR :: int where "FSE_ERROR = - 1"
definition FSE_NOMOREINODES :: int where "FSE_NOMOREINODES = - 2"
definition FSE_FULL :: int where "FSE_FULL = - 3"
definition FSE_INODETABLEFULL :: int where "FSE_INODETABLEFULL = - 4"
definition FSE_NOTEXIST :: int where "FSE_NOTEXIST = - 5"
definition FSE_INVALIDMODE :: int where "FSE_INVALIDMODE = - 6"
definition FSE_INVALIDNAME :: int where "FSE_INVALIDNAME = - 7"
definition FSE_DIRISFILE :: int where "FSE_DIRISFILE = - 8"
definition FSE_EOF :: int where "FSE_EOF = - 9"

text \<open>
  The field names of the source are kept with a prefix where they would clash
  (\<open>d_size\<close> for \<open>size\<close>, \<open>fd_mode\<close> for \<open>mode\<close>). \<open>direct\<close> is an array of
  \<open>INODE_NDIRECT\<close> block indices, \<open>-1\<close> for a slot that is not allocated; the
  constant is the length of the list.
\<close>

record disk_inode =
  d_type :: int
  d_size :: int
  d_nlinks :: int
  d_direct :: "int list"

record mem_inode =
  d_inode :: disk_inode
  open_count :: int
  pos :: int
  dirty :: int
  inode_num :: int

record disk_superblock =
  ninodes :: int
  ndata_blks :: int
  max_filesize :: int
  root_inode :: int

record file_descriptor =
  fd_mode :: int
  fd_idx :: int

text \<open>
  What the source needs and the spec does not give is a parameter of the functions:
  \<open>FS_BLOCKS\<close>, the number of blocks of the filesystem region, and the bytes that
  a \<open>struct disk_inode\<close> occupies in memory, which \<open>save_inode\<close> writes to the
  disk.
\<close>

record fs_config =
  FS_BLOCKS :: int
  inode_image :: "disk_inode \<Rightarrow> byte list"

text \<open>
  The state of the filesystem: the static variables of fs.c, the open-file table of
  the running task and the block device. The arrays \<open>inodes\<close> and \<open>filedes\<close> are
  stores from the index to the element (the source checks no index), the device a
  store from the block number to the 512 bytes of the sector.
\<close>

record fs =
  inode_bmap :: "byte list"
  dblk_bmap :: "byte list"
  SUPER_BLOCK_START :: int
  inodes :: "int \<Rightarrow> mem_inode"
  super :: disk_superblock
  filedes :: "int \<Rightarrow> file_descriptor"
  disk :: "int \<Rightarrow> byte list"

text \<open>
  Modelled from the spec: the block device (block.c) is not under src.
  \<open>block_modify(block, offset, data, len)\<close> updates \<open>len\<close> bytes of a sector
  from \<open>offset\<close> on and leaves the sector at its size;
  \<open>block_read_part(block, offset, len, buf)\<close> reads \<open>len\<close> bytes of a sector
  from \<open>offset\<close> on.
\<close>

definition block_modify :: "int \<Rightarrow> int \<Rightarrow> byte list \<Rightarrow> (int \<Rightarrow> byte list) \<Rightarrow> (int \<Rightarrow> byte list)" where
  "block_modify blk offset data d =
     d(blk := take (nat BLOCK_SIZE)
         (take (nat offset) (d blk) @ data @ drop (nat offset + length data) (d blk)))"

definition block_read_part :: "int \<Rightarrow> int \<Rightarrow> int \<Rightarrow> (int \<Rightarrow> byte list) \<Rightarrow> byte list" where
  "block_read_part blk offset bytes d = take (nat bytes) (drop (nat offset) (d blk))"

text \<open>
  The bitmaps are saved to and loaded from the two sectors behind the superblock,
  \<open>BITMAP_ENTRIES\<close> bytes each.
\<close>

definition save_bitmaps :: "fs \<Rightarrow> fs" where
  "save_bitmaps st =
     (let d1 = block_modify (SUPER_BLOCK_START st + 1) 0 (take BITMAP_ENTRIES (inode_bmap st)) (disk st);
          d2 = block_modify (SUPER_BLOCK_START st + 2) 0 (take BITMAP_ENTRIES (dblk_bmap st)) d1
      in st\<lparr>disk := d2\<rparr>)"

definition load_bitmaps :: "fs \<Rightarrow> fs" where
  "load_bitmaps st =
     st\<lparr>inode_bmap := block_read_part (SUPER_BLOCK_START st + 1) 0 (int BITMAP_ENTRIES) (disk st)
            @ drop BITMAP_ENTRIES (inode_bmap st),
        dblk_bmap := block_read_part (SUPER_BLOCK_START st + 2) 0 (int BITMAP_ENTRIES) (disk st)
            @ drop BITMAP_ENTRIES (dblk_bmap st)\<rparr>"

text \<open>
  \<open>ino2blk\<close> and \<open>idx2blk\<close>: the sector of an inode and of a data block. Both
  return \<open>-1\<close> for an argument out of range; the callers use the result unchecked.
\<close>

definition ino2blk :: "fs \<Rightarrow> int \<Rightarrow> int" where
  "ino2blk st ino =
     (if ino < 0 \<or> ino > 512 then - 1
      else (let space = BLOCK_SIZE sdiv INODE_SIZE
            in SUPER_BLOCK_START st + BITMAP_BLOCKS + (ino sdiv space) + 1))"

definition idx2blk :: "fs_config \<Rightarrow> fs \<Rightarrow> int \<Rightarrow> int" where
  "idx2blk C st index =
     (if index < 0 \<or> index > FS_BLOCKS C - INODE_BLOCKS - BITMAP_BLOCKS - 1 then - 1
      else SUPER_BLOCK_START st + BITMAP_BLOCKS + INODE_BLOCKS + index)"

definition save_inode :: "fs_config \<Rightarrow> int \<Rightarrow> fs \<Rightarrow> fs" where
  "save_inode C ino st =
     (let iblock = ino2blk st ino
      in st\<lparr>disk := block_modify iblock ((ino smod 16) * 32)
                      (inode_image C (d_inode (inodes st ino))) (disk st)\<rparr>)"

text \<open>
  \<open>resize_inode\<close>. The assignments to fields of \<open>inodes[id]\<close> are \<open>set_direct\<close>,
  \<open>set_size\<close> and \<open>set_pos\<close>. \<open>resize_slots\<close> is the loop over the direct
  slots \<open>x = 0, ..., INODE_NDIRECT - 1\<close>; it returns \<open>FSE_FULL\<close> with the state
  as it is at the early \<open>return\<close>, and \<open>FSE_OK\<close> when the loop has run through.
\<close>

definition set_direct :: "int \<Rightarrow> nat \<Rightarrow> int \<Rightarrow> fs \<Rightarrow> fs" where
  "set_direct ino x v st =
     st\<lparr>inodes := (inodes st)(ino := (inodes st ino)
        \<lparr>d_inode := (d_inode (inodes st ino))
           \<lparr>d_direct := (d_direct (d_inode (inodes st ino)))[x := v]\<rparr>\<rparr>)\<rparr>"

definition get_direct :: "fs \<Rightarrow> int \<Rightarrow> nat \<Rightarrow> int" where
  "get_direct st ino x = d_direct (d_inode (inodes st ino)) ! x"

fun resize_slots :: "int \<Rightarrow> int \<Rightarrow> nat list \<Rightarrow> fs \<Rightarrow> int \<times> fs" where
  "resize_slots ino blocks [] st = (FSE_OK, st)"
| "resize_slots ino blocks (x # xs) st =
     (if int x < blocks then
        (if get_direct st ino x = - 1 then
           (let (e, bm) = get_free_entry (dblk_bmap st);
                st1 = set_direct ino x e (st\<lparr>dblk_bmap := bm\<rparr>)
            in if get_direct st1 ino x = - 1 \<or> get_direct st1 ino x \<ge> ndata_blks (super st1)
               then (FSE_FULL, st1)
               else resize_slots ino blocks xs st1)
         else resize_slots ino blocks xs st)
      else
        (if get_direct st ino x \<noteq> - 1 then
           resize_slots ino blocks xs
             (st\<lparr>dblk_bmap := snd (free_bitmap_entry (get_direct st ino x) (dblk_bmap st))\<rparr>)
         else resize_slots ino blocks xs st))"

definition INODE_NDIRECT :: "fs \<Rightarrow> int \<Rightarrow> nat" where
  "INODE_NDIRECT st ino = length (d_direct (d_inode (inodes st ino)))"

definition set_size :: "int \<Rightarrow> int \<Rightarrow> fs \<Rightarrow> fs" where
  "set_size ino v st =
     st\<lparr>inodes := (inodes st)(ino := (inodes st ino)
        \<lparr>d_inode := (d_inode (inodes st ino))\<lparr>d_size := v\<rparr>\<rparr>)\<rparr>"

definition set_pos :: "int \<Rightarrow> int \<Rightarrow> fs \<Rightarrow> fs" where
  "set_pos ino v st = st\<lparr>inodes := (inodes st)(ino := (inodes st ino)\<lparr>pos := v\<rparr>)\<rparr>"

definition resize_inode :: "fs_config \<Rightarrow> int \<Rightarrow> int \<Rightarrow> fs \<Rightarrow> int \<times> fs" where
  "resize_inode C ino new_size st =
     (if new_size > max_filesize (super st) then (FSE_INODETABLEFULL, st)
      else
        (let st1 = load_bitmaps st;
             blocks = (new_size sdiv BLOCK_SIZE) + 1
         in case resize_slots ino blocks [0..<INODE_NDIRECT st1 ino] st1 of
              (r, st2) \<Rightarrow>
                if r \<noteq> FSE_OK then (r, st2)
                else (FSE_OK, save_inode C ino (save_bitmaps (set_size ino new_size st2)))))"

text \<open>
  \<open>db_read\<close> and \<open>db_write\<close>. The buffer is the list of the bytes at the pointer;
  \<open>store_at off data buf\<close> is \<open>buf\<close> after \<open>data\<close> has been stored at
  \<open>&buf[off]\<close>. The \<open>for\<close> loops are \<open>db_read_loop\<close> and \<open>db_write_loop\<close>,
  with the loop variable \<open>x\<close> and the count of bytes as arguments.
\<close>

definition store_at :: "int \<Rightarrow> byte list \<Rightarrow> byte list \<Rightarrow> byte list" where
  "store_at off data buf =
     take (nat off) buf @ data @ drop (nat off + length data) buf"

function db_read_loop ::
  "fs_config \<Rightarrow> int \<Rightarrow> int \<Rightarrow> int \<Rightarrow> int \<Rightarrow> fs \<Rightarrow> int \<Rightarrow> int \<Rightarrow> byte list \<Rightarrow> int \<times> byte list"
where
  "db_read_loop C ino start_pos finish_pos finish_block st x rd buf =
     (if x < finish_block \<and> rd + start_pos < d_size (d_inode (inodes st ino)) then
        (if x = start_pos sdiv BLOCK_SIZE then
           (let n = (if x + 1 = finish_block then finish_pos - start_pos
                     else BLOCK_SIZE - (start_pos smod BLOCK_SIZE));
                data = block_read_part (idx2blk C st (get_direct st ino (nat x)))
                         (start_pos smod BLOCK_SIZE) n (disk st)
            in db_read_loop C ino start_pos finish_pos finish_block st (x + 1) (rd + n)
                 (store_at rd data buf))
         else if x + 1 = finish_block then
           (let n = (finish_pos - start_pos) - rd;
                data = block_read_part (idx2blk C st (get_direct st ino (nat x))) 0 n (disk st)
            in db_read_loop C ino start_pos finish_pos finish_block st (x + 1) (rd + n)
                 (store_at rd data buf))
         else
           (let data = block_read_part (idx2blk C st (get_direct st ino (nat x))) 0 BLOCK_SIZE
                         (disk st)
            in db_read_loop C ino start_pos finish_pos finish_block st (x + 1)
                 (rd + BLOCK_SIZE) (store_at rd data buf)))
      else (rd, buf))"
  by pat_completeness auto
termination
  by (relation "measure (\<lambda>(C, ino, start_pos, finish_pos, finish_block, st, x, rd, buf).
        nat (finish_block - x))") auto

definition db_read :: "fs_config \<Rightarrow> int \<Rightarrow> byte list \<Rightarrow> int \<Rightarrow> int \<Rightarrow> fs \<Rightarrow> int \<times> byte list" where
  "db_read C ino buf sz start_pos st =
     (let finish_pos0 = sz + start_pos;
          finish_pos = (if finish_pos0 > d_size (d_inode (inodes st ino))
                        then d_size (d_inode (inodes st ino)) else finish_pos0);
          start_block = start_pos sdiv BLOCK_SIZE;
          finish_block = (finish_pos sdiv BLOCK_SIZE) + 1;
          toread = finish_pos
      in if toread < 0 then (FSE_ERROR, buf)
         else db_read_loop C ino start_pos finish_pos finish_block st start_block 0 buf)"

function db_write_loop ::
  "fs_config \<Rightarrow> int \<Rightarrow> byte list \<Rightarrow> int \<Rightarrow> int \<Rightarrow> int \<Rightarrow> int \<Rightarrow> int \<Rightarrow> fs \<Rightarrow> int \<times> fs"
where
  "db_write_loop C ino buf start_pos finish_pos finish_block x written st =
     (if x < finish_block \<and> start_pos + written < d_size (d_inode (inodes st ino)) then
        (if x = start_pos sdiv BLOCK_SIZE then
           (let n = (if x + 1 = finish_block then finish_pos - start_pos
                     else BLOCK_SIZE - (start_pos smod BLOCK_SIZE))
            in db_write_loop C ino buf start_pos finish_pos finish_block (x + 1) (written + n)
                 (st\<lparr>disk := block_modify (idx2blk C st (get_direct st ino (nat x)))
                     (start_pos smod BLOCK_SIZE) (take (nat n) (drop (nat written) buf))
                     (disk st)\<rparr>))
         else if x + 1 = finish_block then
           (let n = (finish_pos - start_pos) - written
            in db_write_loop C ino buf start_pos finish_pos finish_block (x + 1) (written + n)
                 (st\<lparr>disk := block_modify (idx2blk C st (get_direct st ino (nat x))) 0
                     (take (nat n) (drop (nat written) buf)) (disk st)\<rparr>))
         else
           db_write_loop C ino buf start_pos finish_pos finish_block (x + 1)
             (written + BLOCK_SIZE)
             (st\<lparr>disk := block_modify (idx2blk C st (get_direct st ino (nat x))) 0
                 (take (nat BLOCK_SIZE) (drop (nat written) buf)) (disk st)\<rparr>))
      else (written, st))"
  by pat_completeness auto
termination
  by (relation "measure (\<lambda>(C, ino, buf, start_pos, finish_pos, finish_block, x, written, st).
        nat (finish_block - x))") auto

text \<open>
  The equations of the two loops are unfolded by hand where they are needed.
\<close>

declare db_read_loop.simps [simp del] db_write_loop.simps [simp del]

definition db_write :: "fs_config \<Rightarrow> int \<Rightarrow> byte list \<Rightarrow> int \<Rightarrow> int \<Rightarrow> fs \<Rightarrow> int \<times> fs" where
  "db_write C ino buf sz start_pos st =
     (let start_block = start_pos sdiv BLOCK_SIZE;
          finish_pos0 = sz + start_pos;
          finish_block = (finish_pos0 sdiv BLOCK_SIZE) + 1;
          finish_pos = (if finish_pos0 > max_filesize (super st) then max_filesize (super st)
                        else finish_pos0)
      in case resize_inode C ino finish_pos st of
           (resize, st1) \<Rightarrow>
             if resize \<noteq> FSE_OK then (resize, st1)
             else db_write_loop C ino buf start_pos finish_pos finish_block start_block 0 st1)"

text \<open>
  The system calls on a file descriptor. \<open>fs_lseek\<close> tests \<open>!resize_inode(id,
  offset)\<close>, which is true when \<open>resize_inode\<close> returns \<open>FSE_OK = 0\<close>. The
  results are the return value, the buffer for \<open>fs_read\<close>, and the state.
\<close>

definition fs_close :: "int \<Rightarrow> fs \<Rightarrow> int \<times> fs" where
  "fs_close fd st =
     (if fd_mode (filedes st fd) = MODE_UNUSED then (FSE_OK, st)
      else
        (let ino = fd_idx (filedes st fd);
             st1 = st\<lparr>inodes := (inodes st)(ino := (inodes st ino)\<lparr>pos := 0\<rparr>)\<rparr>;
             st2 = st1\<lparr>inodes := (inodes st1)(ino := (inodes st1 ino)
                      \<lparr>open_count := open_count (inodes st1 ino) - 1\<rparr>)\<rparr>;
             st3 = st2\<lparr>filedes := (filedes st2)(fd := (filedes st2 fd)\<lparr>fd_mode := MODE_UNUSED\<rparr>)\<rparr>;
             st4 = st3\<lparr>filedes := (filedes st3)(fd := (filedes st3 fd)\<lparr>fd_idx := - 1\<rparr>)\<rparr>
         in (FSE_OK, st4)))"

definition fs_lseek :: "fs_config \<Rightarrow> int \<Rightarrow> int \<Rightarrow> int \<Rightarrow> fs \<Rightarrow> int \<times> fs" where
  "fs_lseek C fd offset whence st =
     (if fd_mode (filedes st fd) = MODE_UNUSED then (FSE_INVALIDMODE, st)
      else
        (let ino = fd_idx (filedes st fd)
         in if whence \<noteq> SEEK_SET \<and> whence \<noteq> SEEK_CUR \<and> whence \<noteq> SEEK_END
            then (FSE_INVALIDMODE, st)
            else
              (let p = (if whence = SEEK_SET then offset
                        else if whence = SEEK_CUR then offset + pos (inodes st ino)
                        else offset + d_size (d_inode (inodes st ino)))
               in if p > d_size (d_inode (inodes st ino)) then
                    (if (fd_mode (filedes st fd) AND MODE_RDONLY) > 0 then (FSE_EOF, st)
                     else if p > max_filesize (super st) then (FSE_FULL, st)
                     else
                       (case resize_inode C ino offset st of
                          (r, st1) \<Rightarrow>
                            if r = 0 then (FSE_FULL, st1)
                            else (FSE_OK, set_pos ino p st1)))
                  else (FSE_OK, set_pos ino p st))))"

definition fs_read :: "fs_config \<Rightarrow> int \<Rightarrow> byte list \<Rightarrow> int \<Rightarrow> fs \<Rightarrow> int \<times> byte list \<times> fs" where
  "fs_read C fd buf sz st =
     (if (fd_mode (filedes st fd) AND (MODE_RDONLY OR MODE_RDWR)) = 0
      then (FSE_INVALIDMODE, buf, st)
      else
        (let ino = fd_idx (filedes st fd)
         in case db_read C ino buf sz (pos (inodes st ino)) st of
              (rd, buf1) \<Rightarrow>
                if rd < 0 then (rd, buf1, st)
                else (case fs_lseek C fd rd SEEK_CUR st of
                        (seek, st1) \<Rightarrow>
                          if seek \<noteq> FSE_OK then (seek, buf1, st1)
                          else (rd, buf1, st1))))"

definition fs_write :: "fs_config \<Rightarrow> int \<Rightarrow> byte list \<Rightarrow> int \<Rightarrow> fs \<Rightarrow> int \<times> fs" where
  "fs_write C fd buf sz st =
     (if (fd_mode (filedes st fd) AND (MODE_WRONLY OR MODE_RDWR)) = 0
      then (FSE_INVALIDMODE, st)
      else
        (let ino = fd_idx (filedes st fd)
         in case db_write C ino buf sz (pos (inodes st ino)) st of
              (written, st1) \<Rightarrow>
                if written < 0 then (written, st1)
                else (case fs_lseek C fd written SEEK_CUR st1 of
                        (seek, st2) \<Rightarrow>
                          if seek \<noteq> FSE_OK then (seek, st2)
                          else (written, st2))))"

subsection \<open>Well-formed inodes\<close>

text \<open>
  Invariant 7 of the spec for one inode, as predicates on the state.
  \<open>slots_ranged\<close>: every allocated direct slot holds the index of a data block of the
  filesystem, below \<open>ndata_blks\<close> and below the 256 entries of the bitmap.
  \<open>slots_distinct\<close>: no two slots hold the same block.
  \<open>slots_marked\<close>: the block of every allocated slot is marked used in the data
  bitmap. \<open>inode_blocks_ok\<close>: the three together, the last one for the bitmap on the
  disk, which is the one that \<open>resize_inode\<close> loads.
  \<open>same_frame\<close>: two states agree on everything but the bitmaps and the direct slots.
\<close>

definition slots_ranged :: "fs \<Rightarrow> int \<Rightarrow> bool" where
  "slots_ranged st ino \<longleftrightarrow>
     (\<forall>x < INODE_NDIRECT st ino. get_direct st ino x \<noteq> - 1 \<longrightarrow>
        0 \<le> get_direct st ino x \<and> get_direct st ino x < ndata_blks (super st) \<and>
        get_direct st ino x < 256)"

definition slots_distinct :: "fs \<Rightarrow> int \<Rightarrow> bool" where
  "slots_distinct st ino \<longleftrightarrow>
     (\<forall>x < INODE_NDIRECT st ino. \<forall>y < INODE_NDIRECT st ino.
        x \<noteq> y \<longrightarrow> get_direct st ino x \<noteq> - 1 \<longrightarrow> get_direct st ino x \<noteq> get_direct st ino y)"

definition slots_marked :: "fs \<Rightarrow> int \<Rightarrow> bool" where
  "slots_marked st ino \<longleftrightarrow>
     (\<forall>x < INODE_NDIRECT st ino. get_direct st ino x \<noteq> - 1 \<longrightarrow>
        check_bit (get_direct st ino x) (dblk_bmap st) = 1)"

definition inode_blocks_ok :: "fs \<Rightarrow> int \<Rightarrow> bool" where
  "inode_blocks_ok st ino \<longleftrightarrow>
     slots_ranged st ino \<and> slots_distinct st ino \<and> slots_marked (load_bitmaps st) ino \<and>
     length (disk st (SUPER_BLOCK_START st + 2)) = 512"

definition same_frame :: "fs \<Rightarrow> fs \<Rightarrow> bool" where
  "same_frame st' st \<longleftrightarrow>
     super st' = super st \<and> disk st' = disk st \<and> filedes st' = filedes st \<and>
     SUPER_BLOCK_START st' = SUPER_BLOCK_START st \<and>
     (\<forall>j. pos (inodes st' j) = pos (inodes st j)) \<and>
     (\<forall>j. d_size (d_inode (inodes st' j)) = d_size (d_inode (inodes st j)))"

text \<open>
  \<open>slot_addr\<close>: the sector of the data block in direct slot \<open>y\<close>.
  \<open>chunk_len N y\<close>: the number of bytes of a file of \<open>N\<close> bytes that lie in its
  block \<open>y\<close>.
\<close>

definition slot_addr :: "fs_config \<Rightarrow> fs \<Rightarrow> int \<Rightarrow> int \<Rightarrow> int" where
  "slot_addr C st ino y = idx2blk C st (get_direct st ino (nat y))"

definition chunk_len :: "int \<Rightarrow> int \<Rightarrow> nat" where
  "chunk_len N y = nat (min 512 (N - 512 * y))"

subsection \<open>Concrete filesystem states\<close>

text \<open>
  A filesystem region that starts at sector 10 and has 100 blocks. Inode 0 is the
  root directory with data block 0, inode 1 is a file; descriptor 0 of the running
  task is open on inode 1 in mode \<open>m\<close>, all other descriptors are unused.
  In \<open>empty_file_fs\<close> the file is empty, in \<open>abc_file_fs\<close> it holds the three
  bytes \<open>abc\<close> in data block 1 (sector 45) and its position is \<open>p\<close>.
\<close>

definition example_config :: fs_config where
  "example_config = \<lparr>FS_BLOCKS = 100, inode_image = (\<lambda>d. replicate 32 0)\<rparr>"

definition empty_file_fs :: "int \<Rightarrow> fs" where
  "empty_file_fs m =
     \<lparr>inode_bmap = 0xC0 # replicate 255 0,
      dblk_bmap = 0x80 # replicate 255 0,
      SUPER_BLOCK_START = 10,
      inodes = (\<lambda>_. \<lparr>d_inode = \<lparr>d_type = 0, d_size = 0, d_nlinks = 0,
                                   d_direct = replicate 8 (- 1)\<rparr>,
                        open_count = 0, pos = 0, dirty = 0, inode_num = 0\<rparr>)
        (1 := \<lparr>d_inode = \<lparr>d_type = 1, d_size = 0, d_nlinks = 1, d_direct = replicate 8 (- 1)\<rparr>,
               open_count = 1, pos = 0, dirty = 0, inode_num = 1\<rparr>),
      super = \<lparr>ninodes = 512, ndata_blks = 65, max_filesize = 4096, root_inode = 0\<rparr>,
      filedes = (\<lambda>_. \<lparr>fd_mode = MODE_UNUSED, fd_idx = - 1\<rparr>)(0 := \<lparr>fd_mode = m, fd_idx = 1\<rparr>),
      disk = (\<lambda>_. replicate 512 0)
        (11 := 0xC0 # replicate 511 0, 12 := 0x80 # replicate 511 0)\<rparr>"

definition abc_file_fs :: "int \<Rightarrow> int \<Rightarrow> fs" where
  "abc_file_fs m p =
     \<lparr>inode_bmap = 0xC0 # replicate 255 0,
      dblk_bmap = 0xC0 # replicate 255 0,
      SUPER_BLOCK_START = 10,
      inodes = (\<lambda>_. \<lparr>d_inode = \<lparr>d_type = 0, d_size = 0, d_nlinks = 0,
                                   d_direct = replicate 8 (- 1)\<rparr>,
                        open_count = 0, pos = 0, dirty = 0, inode_num = 0\<rparr>)
        (1 := \<lparr>d_inode = \<lparr>d_type = 1, d_size = 3, d_nlinks = 1,
                           d_direct = 1 # replicate 7 (- 1)\<rparr>,
               open_count = 1, pos = p, dirty = 0, inode_num = 1\<rparr>),
      super = \<lparr>ninodes = 512, ndata_blks = 65, max_filesize = 4096, root_inode = 0\<rparr>,
      filedes = (\<lambda>_. \<lparr>fd_mode = MODE_UNUSED, fd_idx = - 1\<rparr>)(0 := \<lparr>fd_mode = m, fd_idx = 1\<rparr>),
      disk = (\<lambda>_. replicate 512 0)
        (11 := 0xC0 # replicate 511 0, 12 := 0xC0 # replicate 511 0,
         45 := [0x61, 0x62, 0x63] @ replicate 509 0)\<rparr>"

text \<open>
  \<open>one_file_fs\<close>: the states that the filesystem of \<open>empty_file_fs MODE_RDWR\<close> runs
  through when inode 1 is written: the size, position and direct slots of inode 1,
  the first byte of the data bitmap (in memory and in sector 12), and the contents of
  the data blocks 1 and 2 (sectors 45 and 46).
\<close>

definition one_file_fs :: "int \<Rightarrow> int \<Rightarrow> int list \<Rightarrow> byte \<Rightarrow> byte list \<Rightarrow> byte list \<Rightarrow> fs" where
  "one_file_fs sz p direct bm blk1 blk2 =
     \<lparr>inode_bmap = 0xC0 # replicate 255 0,
      dblk_bmap = bm # replicate 255 0,
      SUPER_BLOCK_START = 10,
      inodes = (\<lambda>_. \<lparr>d_inode = \<lparr>d_type = 0, d_size = 0, d_nlinks = 0,
                                   d_direct = replicate 8 (- 1)\<rparr>,
                        open_count = 0, pos = 0, dirty = 0, inode_num = 0\<rparr>)
        (1 := \<lparr>d_inode = \<lparr>d_type = 1, d_size = sz, d_nlinks = 1, d_direct = direct\<rparr>,
               open_count = 1, pos = p, dirty = 0, inode_num = 1\<rparr>),
      super = \<lparr>ninodes = 512, ndata_blks = 65, max_filesize = 4096, root_inode = 0\<rparr>,
      filedes = (\<lambda>_. \<lparr>fd_mode = MODE_UNUSED, fd_idx = - 1\<rparr>)
        (0 := \<lparr>fd_mode = MODE_RDWR, fd_idx = 1\<rparr>),
      disk = (\<lambda>_. replicate 512 0)
        (11 := 0xC0 # replicate 511 0, 12 := bm # replicate 511 0, 45 := blk1, 46 := blk2)\<rparr>"

subsection \<open>Facts about single bytes\<close>

lemma msk_simps:
  "msk 0 = 0x80" "msk 1 = 0x40" "msk 2 = 0x20" "msk 3 = 0x10" "msk 4 = 0x08"
  "msk 5 = 0x04" "msk 6 = 0x02" "msk 7 = 0x01" "msk (Suc 0) = 0x40"
  by (simp_all add: msk_def)

lemma msk_bit: "k < 8 \<Longrightarrow> ((b::byte) AND msk k = 0) = (\<not> bit b (7 - k))"
  using and_exp_eq_0_iff_not_bit [of b "7 - k"] by (simp add: msk_def push_bit_eq_mult)

lemma bit_ff: "n < 8 \<Longrightarrow> bit (0xff::byte) n"
proof -
  assume "n < 8"
  moreover have "(0xff::byte) = - 1" by simp
  ultimately show ?thesis by (simp only: bit_minus_1_iff) simp
qed

lemma all_set:
  assumes "\<forall>k<8. (b::byte) AND msk k \<noteq> 0"
  shows "b = 0xff"
proof (rule bit_eqI)
  fix n assume "possible_bit TYPE(byte) n"
  then have n: "n < 8" by simp
  then have "bit b (7 - (7 - n))" using assms msk_bit [of "7 - n" b] by auto
  then have "bit b n" using n by simp
  moreover have "bit (0xff::byte) n" using n by (rule bit_ff)
  ultimately show "bit b n = bit (0xff::byte) n" by simp
qed

lemma or_and_not: "(b::byte) AND m = 0 \<Longrightarrow> (b OR m) AND NOT m = b"
  by (simp add: bit_eq_iff bit_and_iff bit_or_iff bit_not_iff) blast

lemma take_None: "take_msb_first b = None \<Longrightarrow> b = 0xff"
proof -
  assume a: "take_msb_first b = None"
  have "\<forall>k<8. b AND msk k \<noteq> 0"
  proof (intro allI impI)
    fix k :: nat assume "k < 8"
    then consider "k = 0" | "k = 1" | "k = 2" | "k = 3" | "k = 4" | "k = 5" | "k = 6" | "k = 7"
      by linarith
    then show "b AND msk k \<noteq> 0" using a
      by cases (simp_all add: take_msb_first_def msk_simps split: if_splits)
  qed
  then show ?thesis by (rule all_set)
qed

lemma take_Some:
  "take_msb_first b = Some (k, b') \<Longrightarrow> k < 8 \<and> b' = b OR msk k \<and> b AND msk k = 0"
  by (auto simp: take_msb_first_def msk_simps split: if_splits)

lemma take_Some_before:
  "take_msb_first b = Some (k, b') \<Longrightarrow> j < k \<Longrightarrow> b AND msk j \<noteq> 0"
proof -
  assume a: "take_msb_first b = Some (k, b')" and jk: "j < k"
  then have "k < 8" by (simp add: take_Some)
  with jk consider "j = 0" | "j = 1" | "j = 2" | "j = 3" | "j = 4" | "j = 5" | "j = 6"
    by linarith
  then show ?thesis using a jk
    by cases (auto simp add: take_msb_first_def msk_simps split: if_splits)
qed

subsection \<open>Facts about the bitmap functions\<close>

lemma sdiv_nonneg: "0 \<le> (x::int) \<Longrightarrow> x sdiv 8 = x div 8"
  by (simp add: signed_divide_int_def sgn_if)

lemma smod_nonneg: "0 \<le> (x::int) \<Longrightarrow> x smod 8 = x mod 8"
  by (simp add: signed_modulo_int_def sgn_if)

lemma check_bit_nat:
  "k < 8 \<Longrightarrow> check_bit (int (i * 8 + k)) b = (if b ! i AND msk k \<noteq> 0 then 1 else 0)"
proof -
  assume k: "k < 8"
  have "int (i * 8 + k) div 8 = int i" using k by simp
  moreover have "int (i * 8 + k) mod 8 = int k" using k by simp
  ultimately show ?thesis using k
    by (simp add: check_bit_def sdiv_nonneg smod_nonneg msk_def Let_def nat_diff_distrib)
qed

lemma check_bit_split:
  "check_bit (int n) b = (if b ! (n div 8) AND msk (n mod 8) \<noteq> 0 then 1 else 0)"
  using check_bit_nat [of "n mod 8" "n div 8" b] by simp

lemma byte_full_bits: "b ! i = 0xff \<Longrightarrow> j div 8 = i \<Longrightarrow> check_bit (int j) b = 1"
proof -
  assume a: "b ! i = 0xff" "j div 8 = i"
  have "7 - j mod 8 < 8" by arith
  then have "bit (0xff::byte) (7 - j mod 8)" by (rule bit_ff)
  moreover have "j mod 8 < 8" by simp
  ultimately have "\<not> ((0xff::byte) AND msk (j mod 8) = 0)"
    by (simp only: msk_bit) simp
  then show ?thesis using a by (simp add: check_bit_split)
qed

lemma get_free_entry_from_all_taken:
  "(\<forall>j. i \<le> j \<and> j < 32 \<longrightarrow> b ! j = 0xff) \<Longrightarrow> get_free_entry_from i b = (- 1, b)"
proof (induction i b rule: get_free_entry_from.induct)
  case (1 i bitmap)
  show ?case
  proof (cases "i < 32")
    case True
    then have "bitmap ! i = 0xff" using "1.prems" by simp
    moreover have "get_free_entry_from (i + 1) bitmap = (- 1, bitmap)"
      using "1.IH"(1) "1.prems" True \<open>bitmap ! i = 0xff\<close> by (simp add: BITMAP_ENTRIES_def)
    ultimately show ?thesis
      using True get_free_entry_from.simps [of i bitmap] by (simp add: BITMAP_ENTRIES_def)
  next
    case False
    then show ?thesis
      using get_free_entry_from.simps [of i bitmap] by (simp add: BITMAP_ENTRIES_def)
  qed
qed

lemma gfe_from:
  "get_free_entry_from i b = (e, b') \<Longrightarrow> (\<forall>j < 8 * i. check_bit (int j) b = 1) \<Longrightarrow>
    (e = -1 \<and> b' = b \<and> (\<forall>j<256. check_bit (int j) b = 1)) \<or>
    (\<exists>n<256. e = int n \<and> check_bit (int n) b = 0 \<and> (\<forall>j<n. check_bit (int j) b = 1)
        \<and> b' = b[n div 8 := b ! (n div 8) OR msk (n mod 8)])"
proof (induction i b arbitrary: e b' rule: get_free_entry_from.induct)
  case (1 i bitmap)
  show ?case
  proof (cases "i < 32")
    case False
    then have "e = -1" "b' = bitmap" using "1.prems"(1) by (simp_all add: BITMAP_ENTRIES_def)
    moreover have "\<forall>j<256. check_bit (int j) bitmap = 1" using "1.prems"(2) False by auto
    ultimately show ?thesis by simp
  next
    case True
    note i32 = this
    show ?thesis
    proof (cases "bitmap ! i = 0xff")
      case True
      have "\<forall>j<8 * (i + 1). check_bit (int j) bitmap = 1"
      proof (intro allI impI)
        fix j assume j: "j < 8 * (i + 1)"
        show "check_bit (int j) bitmap = 1"
        proof (cases "j < 8 * i")
          case True then show ?thesis using "1.prems"(2) by simp
        next
          case False
          with j have "j div 8 = i" by simp
          with True show ?thesis by (simp add: byte_full_bits)
        qed
      qed
      moreover have "get_free_entry_from (i + 1) bitmap = (e, b')"
        using "1.prems"(1) True i32 by (simp add: BITMAP_ENTRIES_def)
      ultimately show ?thesis
        using "1.IH"(1) [of e b'] i32 True by (simp add: BITMAP_ENTRIES_def)
    next
      case False
      then obtain k c where t: "take_msb_first (bitmap ! i) = Some (k, c)"
        using take_None [of "bitmap ! i"] by (cases "take_msb_first (bitmap ! i)") auto
      then have eb: "e = int (i * 8 + k)" "b' = bitmap[i := c]"
        using "1.prems"(1) False i32 by (simp_all add: BITMAP_ENTRIES_def)
      from t have k: "k < 8" "c = bitmap ! i OR msk k" "bitmap ! i AND msk k = 0"
        by (simp_all add: take_Some)
      let ?n = "i * 8 + k"
      have nd: "?n div 8 = i" "?n mod 8 = k" using k(1) by simp_all
      have "?n < 256" using i32 k(1) by simp
      moreover have "check_bit (int ?n) bitmap = 0"
        using k check_bit_nat [of k i bitmap] by simp
      moreover have "\<forall>j<?n. check_bit (int j) bitmap = 1"
      proof (intro allI impI)
        fix j assume j: "j < ?n"
        show "check_bit (int j) bitmap = 1"
        proof (cases "j < 8 * i")
          case True then show ?thesis using "1.prems"(2) by simp
        next
          case False
          with j k(1) have jd: "j div 8 = i" "j mod 8 < k"
            by (simp_all add: div_nat_eqI) arith+
          then show ?thesis
            using take_Some_before [OF t, of "j mod 8"] by (simp add: check_bit_split)
        qed
      qed
      moreover have "b' = bitmap[?n div 8 := bitmap ! (?n div 8) OR msk (?n mod 8)]"
        using eb k nd by simp
      ultimately show ?thesis using eb by blast
    qed
  qed
qed

lemma free_after_set:
  assumes "n < 256" "n div 8 < length b" "b ! (n div 8) AND msk (n mod 8) = 0"
  shows "free_bitmap_entry (int n) (b[n div 8 := b ! (n div 8) OR msk (n mod 8)]) = (0, b)"
proof -
  have d: "int n sdiv 8 = int (n div 8)" "int n smod 8 = int (n mod 8)"
    by (simp_all add: sdiv_nonneg smod_nonneg zdiv_int zmod_int)
  have restore: "\<And>m. b ! (n div 8) AND m = 0 \<Longrightarrow>
      clear_bit_at (int (n div 8)) m (b[n div 8 := b ! (n div 8) OR m]) = b"
    using assms(2) by (simp add: clear_bit_at_def or_and_not)
  have "n mod 8 < 8" by simp
  then consider "n mod 8 = 0" | "n mod 8 = 1" | "n mod 8 = 2" | "n mod 8 = 3"
    | "n mod 8 = 4" | "n mod 8 = 5" | "n mod 8 = 6" | "n mod 8 = 7" by linarith
  then show ?thesis using assms(1,3) restore
    by cases (simp_all add: free_bitmap_entry_def d BITMAP_ENTRIES_def msk_simps)
qed

lemma free_minus_one: "free_bitmap_entry (- 1) b = (0, b)"
  by (simp add: free_bitmap_entry_def signed_divide_int_def signed_modulo_int_def
      BITMAP_ENTRIES_def)

lemma get_free_entry_cases:
  assumes "get_free_entry b = (e, b')"
  shows "(e = -1 \<and> b' = b \<and> (\<forall>j<256. check_bit (int j) b = 1)) \<or>
    (\<exists>n<256. e = int n \<and> check_bit (int n) b = 0 \<and> (\<forall>j<n. check_bit (int j) b = 1)
        \<and> b' = b[n div 8 := b ! (n div 8) OR msk (n mod 8)])"
  using assms gfe_from [of 0 b e b'] by (simp add: get_free_entry_def)

section \<open>Facts about the ready ring and the wait queues\<close>

lemma wait_queue_upd: "u \<notin> set ws \<Longrightarrow> wait_queue (s(u := v)) q ws = wait_queue s q ws"
  by (induction ws arbitrary: q) auto

lemma wait_queue_cong: "(\<And>p. p \<in> set ws \<Longrightarrow> pcb_next (s' p) = pcb_next (s p)) \<Longrightarrow> wait_queue s' q ws = wait_queue s q ws"
  by (induction ws arbitrary: q) auto

lemma ready_ring_Cons:
  "ready_ring s (c # ys) \<longleftrightarrow>
     distinct (c # ys) \<and> 0 \<notin> set (c # ys) \<and>
     map (\<lambda>p. pcb_next (s p)) (c # ys) = ys @ [c] \<and>
     map (\<lambda>p. pcb_previous (s p)) (ys @ [c]) = c # ys"
  by (simp add: ready_ring_def)

lemma ring_previous: "ready_ring s (c # ys) \<Longrightarrow> pcb_previous (s c) = last (c # ys)"
proof -
  assume "ready_ring s (c # ys)"
  then have "map (\<lambda>p. pcb_previous (s p)) (ys @ [c]) = c # ys" by (simp add: ready_ring_Cons)
  then have "last (map (\<lambda>p. pcb_previous (s p)) (ys @ [c])) = last (c # ys)" by simp
  then show ?thesis by (simp only: map_append last_snoc list.map)
qed

lemma ring_next_butlast:
  "ready_ring s (c # ys) \<Longrightarrow> map (\<lambda>p. pcb_next (s p)) (butlast (c # ys)) = ys"
proof -
  assume "ready_ring s (c # ys)"
  then have "map (\<lambda>p. pcb_next (s p)) (c # ys) = ys @ [c]" by (simp add: ready_ring_Cons)
  then have "butlast (map (\<lambda>p. pcb_next (s p)) (c # ys)) = butlast (ys @ [c])" by simp
  then show ?thesis by (simp only: map_butlast butlast_snoc)
qed

lemma ring_previous_tail:
  "ready_ring s (c # ys) \<Longrightarrow> map (\<lambda>p. pcb_previous (s p)) ys = butlast (c # ys)"
proof -
  assume "ready_ring s (c # ys)"
  then have "map (\<lambda>p. pcb_previous (s p)) (ys @ [c]) = c # ys" by (simp add: ready_ring_Cons)
  then have "butlast (map (\<lambda>p. pcb_previous (s p)) (ys @ [c])) = butlast (c # ys)" by simp
  then show ?thesis by (simp only: map_append butlast_snoc list.map)
qed

lemma unblock_ring:
  assumes r: "ready_ring (pcbs k) (c # ys)" and c: "current_running k = c"
    and w: "wait_queue (pcbs k) q (w # ws)" and d: "distinct (c # ys @ w # ws)"
  shows "\<exists>k'. unblock q k = Some (pcb_next (pcbs k w), k') \<and> current_running k' = c \<and>
     ready_ring (pcbs k') (c # ys @ [w]) \<and> wait_queue (pcbs k') (pcb_next (pcbs k w)) ws \<and>
     pcb_state (pcbs k' w) = STATUS_READY \<and>
     (\<forall>p. p \<noteq> w \<longrightarrow> pcb_state (pcbs k' p) = pcb_state (pcbs k p))"
proof -
  define s where "s = pcbs k"
  define p where "p = pcb_previous (s c)"
  have pl: "p = last (c # ys)" using r by (simp add: p_def s_def ring_previous)
  then have pin: "p \<in> set (c # ys)" using last_in_set [of "c # ys"] by simp
  have nz: "0 \<notin> set (c # ys)" using r by (simp add: ready_ring_def)
  have p0: "p \<noteq> 0" using pin nz by metis
  have c0: "c \<noteq> 0" using nz by simp
  have qw: "q = w" and w0: "w \<noteq> 0" and wq: "wait_queue s (pcb_next (s w)) ws"
    using w by (simp_all add: s_def)
  have wc: "w \<noteq> c" using d by auto
  have wp: "w \<noteq> p" using d pin by auto
  have wys: "w \<notin> set ys" using d by auto
  have wws: "w \<notin> set ws" using d by auto
  have cws: "c \<notin> set ws" using d by auto
  have pws: "p \<notin> set ws" using d pin by auto
  define s5 where "s5 =
    (let s1 = s(w := (s w)\<lparr>pcb_state := STATUS_READY\<rparr>);
         s2 = s1(w := (s1 w)\<lparr>pcb_previous := pcb_previous (s1 c)\<rparr>);
         s3 = s2(w := (s2 w)\<lparr>pcb_next := c\<rparr>);
         s4 = s3(pcb_previous (s3 c) := (s3 (pcb_previous (s3 c)))\<lparr>pcb_next := w\<rparr>)
     in s4(c := (s4 c)\<lparr>pcb_previous := w\<rparr>))"
  have u: "unblock q k = Some (pcb_next (s w), k\<lparr>pcbs := s5\<rparr>)"
    using qw w0 c0 p0 c by (simp add: unblock_def s5_def Let_def s_def p_def)
  have N: "\<And>x. pcb_next (s5 x) = (if x = w then c else if x = p then w else pcb_next (s x))"
    using wc wp by (simp add: s5_def Let_def p_def)
  have P: "\<And>x. pcb_previous (s5 x) = (if x = c then w else if x = w then p else pcb_previous (s x))"
    using wc wp by (simp add: s5_def Let_def p_def)
  have S: "\<And>x. pcb_state (s5 x) = (if x = w then STATUS_READY else pcb_state (s x))"
    using wc wp by (simp add: s5_def Let_def p_def)
  have split: "c # ys = butlast (c # ys) @ [p]" using pl by simp
  have dist: "distinct (c # ys)" using r by (simp add: ready_ring_def)
  have pnb: "p \<notin> set (butlast (c # ys))"
    using dist split by (metis distinct_append disjoint_iff list.set_intros(1))
  have wnb: "w \<notin> set (butlast (c # ys))"
    using wc wys in_set_butlastD [of w "c # ys"] by auto
  have nb: "map (\<lambda>x. pcb_next (s5 x)) (butlast (c # ys)) = ys"
  proof -
    have "map (\<lambda>x. pcb_next (s5 x)) (butlast (c # ys)) = map (\<lambda>x. pcb_next (s x)) (butlast (c # ys))"
      using pnb wnb by (intro map_cong refl) (auto simp: N)
    then show ?thesis using r by (simp only: ring_next_butlast s_def)
  qed
  have "map (\<lambda>x. pcb_next (s5 x)) ((butlast (c # ys) @ [p]) @ [w]) = ys @ [w] @ [c]"
    using nb wp by (simp add: N)
  then have ring_n: "map (\<lambda>x. pcb_next (s5 x)) (c # ys @ [w]) = (ys @ [w]) @ [c]"
    using split by (metis append_Cons append_assoc)
  have cys: "c \<notin> set ys" using dist by simp
  have pt: "map (\<lambda>x. pcb_previous (s5 x)) ys = butlast (c # ys)"
  proof -
    have "map (\<lambda>x. pcb_previous (s5 x)) ys = map (\<lambda>x. pcb_previous (s x)) ys"
      using cys wys by (intro map_cong refl) (auto simp: P)
    then show ?thesis using r by (simp only: ring_previous_tail s_def)
  qed
  have "map (\<lambda>x. pcb_previous (s5 x)) ((ys @ [w]) @ [c]) = (butlast (c # ys) @ [p]) @ [w]"
    using pt wc by (simp add: P)
  then have ring_p: "map (\<lambda>x. pcb_previous (s5 x)) ((ys @ [w]) @ [c]) = c # ys @ [w]"
    using split by (metis append_Cons)
  have ring: "ready_ring s5 (c # ys @ [w])"
    unfolding ready_ring_Cons using ring_n ring_p dist wc wys nz w0 by auto
  have wq5: "wait_queue s5 (pcb_next (s w)) ws"
  proof -
    have "wait_queue s5 (pcb_next (s w)) ws = wait_queue s (pcb_next (s w)) ws"
      using wws pws by (intro wait_queue_cong) (auto simp: N)
    then show ?thesis using wq by simp
  qed
  show ?thesis
    using u ring wq5 S c by (intro exI [of _ "k\<lparr>pcbs := s5\<rparr>"]) (simp add: s_def)
qed

lemma ring_next_nth:
  assumes "ready_ring s xs" "i < length xs"
  shows "pcb_next (s (xs ! i)) = xs ! (Suc i mod length xs)"
proof -
  have "map (\<lambda>p. pcb_next (s p)) xs ! i = rotate1 xs ! i" using assms(1) by (simp add: ready_ring_def)
  then show ?thesis using assms(2) by (simp add: nth_rotate1)
qed

lemma dispatch_facts:
  "current_running (dispatch k) = current_running k"
  "pcb_next (pcbs (dispatch k) p) = pcb_next (pcbs k p)"
  "pcb_previous (pcbs (dispatch k) p) = pcb_previous (pcbs k p)"
  "runnable (pcbs k) p \<Longrightarrow> runnable (pcbs (dispatch k)) p"
  by (auto simp: dispatch_def Let_def runnable_def)

lemma ready_ring_cong:
  "(\<And>p. pcb_next (s' p) = pcb_next (s p)) \<Longrightarrow> (\<And>p. pcb_previous (s' p) = pcb_previous (s p)) \<Longrightarrow>
   ready_ring s' xs = ready_ring s xs"
  by (simp add: ready_ring_def)

lemma scheduler_step:
  assumes r: "ready_ring (pcbs k) xs" and i: "i < length xs" and c: "current_running k = xs ! i"
    and run: "\<forall>p \<in> set xs. runnable (pcbs k) p"
  shows "\<exists>k'. scheduler k = Some k' \<and> current_running k' = xs ! (Suc i mod length xs) \<and>
     ready_ring (pcbs k') xs \<and> (\<forall>p \<in> set xs. runnable (pcbs k') p)"
proof -
  let ?n = "xs ! (Suc i mod length xs)"
  have pos: "0 < length xs" using i by arith
  have nin: "?n \<in> set xs" using pos by (simp add: nth_mem)
  have cin: "xs ! i \<in> set xs" using i by simp
  have nz: "0 \<notin> set xs" using r by (simp add: ready_ring_def)
  have c0: "xs ! i \<noteq> 0" using cin nz by metis
  have n0: "?n \<noteq> 0" using nin nz by metis
  have nx: "pcb_next (pcbs k (xs ! i)) = ?n" using r i by (rule ring_next_nth)
  have rc: "runnable (pcbs k) (xs ! i)" using run cin by blast
  let ?k' = "dispatch (k\<lparr>current_running := ?n\<rparr>)"
  have "scheduler k = Some ?k'"
    using c c0 n0 nx rc by (simp add: scheduler_def Let_def runnable_def)
  moreover have "current_running ?k' = ?n" by (simp add: dispatch_facts)
  moreover have "ready_ring (pcbs ?k') xs"
    using r by (simp add: ready_ring_cong [of "pcbs ?k'" "pcbs k"] dispatch_facts)
  moreover have "\<forall>p \<in> set xs. runnable (pcbs ?k') p"
    using run dispatch_facts(4) [of "k\<lparr>current_running := ?n\<rparr>"] by simp
  ultimately show ?thesis by blast
qed

lemma yields_ring:
  assumes r: "ready_ring (pcbs k) xs" and i: "i < length xs" and c: "current_running k = xs ! i"
    and run: "\<forall>p \<in> set xs. runnable (pcbs k) p"
  shows "\<exists>k'. yields n k = Some k' \<and> current_running k' = xs ! ((i + n) mod length xs) \<and>
     ready_ring (pcbs k') xs \<and> (\<forall>p \<in> set xs. runnable (pcbs k') p)"
  using assms
proof (induction n arbitrary: k i)
  case 0
  then show ?case by simp
next
  case (Suc n)
  from scheduler_step [OF Suc.prems] obtain k1 where k1: "scheduler k = Some k1"
    "current_running k1 = xs ! (Suc i mod length xs)" "ready_ring (pcbs k1) xs"
    "\<forall>p \<in> set xs. runnable (pcbs k1) p" by blast
  have "0 < length xs" using Suc.prems(2) by arith
  then have lt: "Suc i mod length xs < length xs" by simp
  from Suc.IH [OF k1(3) lt k1(2) k1(4)] obtain k' where k': "yields n k1 = Some k'"
    "current_running k' = xs ! ((Suc i mod length xs + n) mod length xs)"
    "ready_ring (pcbs k') xs" "\<forall>p \<in> set xs. runnable (pcbs k') p" by blast
  have "(Suc i mod length xs + n) mod length xs = (i + Suc n) mod length xs"
    by (simp add: mod_add_left_eq)
  then show ?case using k1(1) k' by (simp add: yield_def)
qed

lemma queue_tail_last:
  "wait_queue s q ws \<Longrightarrow> ws \<noteq> [] \<Longrightarrow> queue_tail s q = Some (last ws)"
proof (induction ws arbitrary: q)
  case Nil
  then show ?case by simp
next
  case (Cons w ws)
  show ?case
  proof (cases ws)
    case Nil
    then show ?thesis using Cons.prems by (subst queue_tail.simps) simp
  next
    case (Cons v vs)
    then have "pcb_next (s w) \<noteq> 0" using Cons.prems by auto
    moreover have "queue_tail s (pcb_next (s w)) = Some (last ws)"
      using Cons.IH [of "pcb_next (s w)"] Cons.prems \<open>ws = v # vs\<close> by simp
    ultimately show ?thesis using Cons.prems \<open>ws = v # vs\<close>
      by (subst queue_tail.simps) simp
  qed
qed

lemma wait_queue_snoc:
  assumes "wait_queue s q ws" "ws \<noteq> []" "c \<noteq> 0"
    and "\<forall>x \<in> set (butlast ws). pcb_next (s' x) = pcb_next (s x)"
    and "pcb_next (s' (last ws)) = c" "pcb_next (s' c) = 0"
  shows "wait_queue s' q (ws @ [c])"
  using assms
proof (induction ws arbitrary: q)
  case Nil
  then show ?case by simp
next
  case (Cons w ws)
  show ?case
  proof (cases ws)
    case Nil
    then show ?thesis using Cons.prems by simp
  next
    case (Cons v vs)
    then have "wait_queue s' (pcb_next (s w)) (ws @ [c])"
      using Cons.IH [of "pcb_next (s w)"] Cons.prems by simp
    moreover have "pcb_next (s' w) = pcb_next (s w)" using Cons.prems(4) \<open>ws = v # vs\<close> by simp
    ultimately show ?thesis using Cons.prems(1) by simp
  qed
qed

lemma ring_next_head: "ready_ring s (c # y # zs) \<Longrightarrow> pcb_next (s c) = y"
  by (simp add: ready_ring_Cons)

lemma block_queue:
  assumes r: "ready_ring (pcbs k) (c # y # zs)" and c: "current_running k = c"
    and w: "wait_queue (pcbs k) q ws" and d: "distinct (c # y # zs @ ws)"
    and run: "\<forall>p \<in> set (y # zs). runnable (pcbs k) p"
  shows "\<exists>q' k'. block q k = Some (q', k') \<and> current_running k' = y \<and>
     ready_ring (pcbs k') (y # zs) \<and> wait_queue (pcbs k') q' (ws @ [c]) \<and>
     pcb_state (pcbs k' c) = STATUS_BLOCKED \<and> (\<forall>p \<in> set (y # zs). runnable (pcbs k') p) \<and>
     (\<forall>x \<in> set ws. pcb_state (pcbs k' x) = pcb_state (pcbs k x))"
proof -
  define s where "s = pcbs k"
  define p where "p = last (y # zs)"
  have nz: "0 \<notin> set (c # y # zs)" using r by (simp add: ready_ring_def)
  have c0: "c \<noteq> 0" and y0: "y \<noteq> 0" using nz by auto
  have pin: "p \<in> set (y # zs)" unfolding p_def using last_in_set [of "y # zs"] by simp
  have pc: "p \<noteq> c" using pin d by auto
  have yc: "y \<noteq> c" using d by auto
  have p0: "p \<noteq> 0" using pin nz by (metis list.set_intros(2))
  have prev: "pcb_previous (s c) = p" using ring_previous [OF r] by (simp add: p_def s_def)
  have nxt: "pcb_next (s c) = y" using r by (simp add: s_def ring_next_head)
  define a where "a = (if q = 0 then s(c := (s c)\<lparr>pcb_state := STATUS_BLOCKED\<rparr>)
     else (s(c := (s c)\<lparr>pcb_state := STATUS_BLOCKED\<rparr>))
        (last ws := ((s(c := (s c)\<lparr>pcb_state := STATUS_BLOCKED\<rparr>)) (last ws))\<lparr>pcb_next := c\<rparr>))"
  have wsq: "q = 0 \<longleftrightarrow> ws = []" using w by (cases ws) auto
  have lws: "ws \<noteq> [] \<Longrightarrow> last ws \<notin> set (c # y # zs)" using d last_in_set [of ws] by auto
  have a_c: "pcb_next (a c) = y" "pcb_previous (a c) = p" "pcb_state (a c) = STATUS_BLOCKED"
    using lws wsq nxt prev by (auto simp: a_def)
  define s4 where "s4 =
    (let s1 = a(pcb_previous (a c) := (a (pcb_previous (a c)))\<lparr>pcb_next := pcb_next (a c)\<rparr>);
         s2 = s1(pcb_next (s1 c) := (s1 (pcb_next (s1 c)))\<lparr>pcb_previous := pcb_previous (s1 c)\<rparr>);
         s3 = s2(c := (s2 c)\<lparr>pcb_next := 0\<rparr>)
     in s3(c := (s3 c)\<lparr>pcb_previous := 0\<rparr>))"
  let ?k' = "dispatch (k\<lparr>pcbs := s4, current_running := y\<rparr>)"
  have sch: "scheduler (k\<lparr>pcbs := a\<rparr>) = Some ?k'"
    using c c0 a_c pc yc p0 y0 by (simp add: scheduler_def Let_def s4_def)
  have tl: "ws \<noteq> [] \<Longrightarrow> queue_tail (s(c := (s c)\<lparr>pcb_state := STATUS_BLOCKED\<rparr>)) q = Some (last ws)"
  proof -
    assume ne: "ws \<noteq> []"
    have "wait_queue (s(c := (s c)\<lparr>pcb_state := STATUS_BLOCKED\<rparr>)) q ws = wait_queue s q ws"
      by (intro wait_queue_cong) simp
    then show ?thesis using w ne by (simp add: queue_tail_last s_def)
  qed
  have b: "block q k = Some (if q = 0 then c else q, ?k')"
  proof (cases "q = 0")
    case True
    then show ?thesis using c c0 sch by (simp add: block_def Let_def a_def s_def)
  next
    case False
    then have "ws \<noteq> []" using wsq by simp
    then show ?thesis using False c c0 sch tl by (simp add: block_def Let_def a_def s_def)
  qed
  have N: "\<And>x. pcb_next (s4 x) = (if x = c then 0 else if x = p then y
      else if ws \<noteq> [] \<and> x = last ws then c else pcb_next (s x))"
    using a_c pc yc wsq lws pin by (auto simp: s4_def Let_def a_def)
  have P: "\<And>x. pcb_previous (s4 x) = (if x = c then 0 else if x = y then p else pcb_previous (s x))"
    using a_c pc yc wsq lws by (auto simp: s4_def Let_def a_def)
  have S: "\<And>x. pcb_state (s4 x) = (if x = c then STATUS_BLOCKED else pcb_state (s x))"
    using a_c pc yc wsq lws by (auto simp: s4_def Let_def a_def)
  have dist: "distinct (y # zs)" "c \<notin> set (y # zs)" using d by auto
  have split: "y # zs = butlast (y # zs) @ [p]" by (simp add: p_def)
  have pnb: "p \<notin> set (butlast (y # zs))"
    using dist(1) split by (metis distinct_append disjoint_iff list.set_intros(1))
  have rn: "map (\<lambda>x. pcb_next (s x)) (y # zs) = zs @ [c]"
    using r by (simp add: ready_ring_Cons s_def)
  have rp: "map (\<lambda>x. pcb_previous (s x)) (zs @ [c]) = y # zs"
    using r by (simp add: ready_ring_Cons s_def)
  have nb: "map (\<lambda>x. pcb_next (s4 x)) (butlast (y # zs)) = zs"
  proof -
    have "map (\<lambda>x. pcb_next (s4 x)) (butlast (y # zs)) = map (\<lambda>x. pcb_next (s x)) (butlast (y # zs))"
    proof (intro map_cong refl)
      fix x assume x: "x \<in> set (butlast (y # zs))"
      then have xin: "x \<in> set (y # zs)" by (rule in_set_butlastD)
      then have "x \<noteq> c" using dist(2) by auto
      moreover have "x \<noteq> p" using x pnb by auto
      moreover have "ws \<noteq> [] \<Longrightarrow> x \<noteq> last ws" using lws xin by auto
      ultimately show "pcb_next (s4 x) = pcb_next (s x)" by (auto simp: N)
    qed
    also have "\<dots> = butlast (map (\<lambda>x. pcb_next (s x)) (y # zs))" by (simp only: map_butlast)
    also have "\<dots> = zs" by (simp only: rn butlast_snoc)
    finally show ?thesis .
  qed
  have "map (\<lambda>x. pcb_next (s4 x)) (butlast (y # zs) @ [p]) = zs @ [y]"
    using nb pc by (simp add: N)
  then have ring_n: "map (\<lambda>x. pcb_next (s4 x)) (y # zs) = zs @ [y]" using split by simp
  have pz: "map (\<lambda>x. pcb_previous (s4 x)) zs = butlast (y # zs)"
  proof -
    have "map (\<lambda>x. pcb_previous (s4 x)) zs = map (\<lambda>x. pcb_previous (s x)) zs"
      using dist by (intro map_cong refl) (auto simp: P)
    also have "\<dots> = butlast (map (\<lambda>x. pcb_previous (s x)) (zs @ [c]))" by simp
    also have "\<dots> = butlast (y # zs)" by (simp only: rp)
    finally show ?thesis .
  qed
  have "map (\<lambda>x. pcb_previous (s4 x)) (zs @ [y]) = butlast (y # zs) @ [p]"
    using pz yc by (simp add: P)
  then have ring_p: "map (\<lambda>x. pcb_previous (s4 x)) (zs @ [y]) = y # zs" using split by simp
  have ring4: "ready_ring s4 (y # zs)"
    unfolding ready_ring_Cons using ring_n ring_p dist nz by auto
  have ring: "ready_ring (pcbs ?k') (y # zs)"
    using ring4 by (simp add: ready_ring_cong [of "pcbs ?k'" s4] dispatch_facts)
  have wq4: "wait_queue s4 (if q = 0 then c else q) (ws @ [c])"
  proof (cases "ws = []")
    case True
    then show ?thesis using wsq c0 by (simp add: N)
  next
    case False
    have "\<forall>x \<in> set (butlast ws). pcb_next (s4 x) = pcb_next (s x)"
    proof
      fix x assume x: "x \<in> set (butlast ws)"
      then have xin: "x \<in> set ws" by (rule in_set_butlastD)
      have "distinct ws" using d by simp
      then have "x \<noteq> last ws"
        using x False by (metis append_butlast_last_id distinct_append disjoint_iff list.set_intros(1))
      moreover have "x \<noteq> c" "x \<noteq> p" using xin d pin by auto
      ultimately show "pcb_next (s4 x) = pcb_next (s x)" by (simp add: N)
    qed
    moreover have "pcb_next (s4 (last ws)) = c" using False lws pin by (auto simp: N)
    moreover have "pcb_next (s4 c) = 0" by (simp add: N)
    ultimately have "wait_queue s4 q (ws @ [c])"
      using wait_queue_snoc [of s q ws c s4] w False c0 by (simp add: s_def)
    then show ?thesis using False wsq by simp
  qed
  have wq: "wait_queue (pcbs ?k') (if q = 0 then c else q) (ws @ [c])"
  proof -
    have "wait_queue (pcbs ?k') (if q = 0 then c else q) (ws @ [c])
        = wait_queue s4 (if q = 0 then c else q) (ws @ [c])"
      by (intro wait_queue_cong) (simp add: dispatch_facts)
    then show ?thesis using wq4 by simp
  qed
  have st: "pcb_state (pcbs ?k' c) = STATUS_BLOCKED"
    using yc by (simp add: dispatch_def Let_def S)
  have runs: "\<forall>x \<in> set (y # zs). runnable (pcbs ?k') x"
  proof
    fix x assume x: "x \<in> set (y # zs)"
    then have "runnable s4 x" using run dist(2) by (auto simp: runnable_def S s_def)
    then show "runnable (pcbs ?k') x"
      using dispatch_facts(4) [of "k\<lparr>pcbs := s4, current_running := y\<rparr>" x] by simp
  qed
  have keep: "\<forall>x \<in> set ws. pcb_state (pcbs ?k' x) = pcb_state (pcbs k x)"
    using d by (auto simp: dispatch_def Let_def S s_def)
  show ?thesis using b ring wq st runs keep by (simp add: dispatch_facts)
qed

lemma ring2_waiting1_shape:
  "ready_ring (pcbs ring2_waiting1) [1, 2] \<and> current_running ring2_waiting1 = 1 \<and>
   wait_queue (pcbs ring2_waiting1) 3 [3] \<and> runnable (pcbs ring2_waiting1) 1 \<and>
   runnable (pcbs ring2_waiting1) 2"
  by (simp add: ready_ring_def ring2_waiting1_def runnable_def)

text \<open>
  The first half of claim C2 holds on the code: whatever the calls do to the wait
  queue, the counter is its initial value plus the number of \<open>up\<close> calls minus the
  number of \<open>down\<close> calls.
\<close>

lemma sem_calls_counter:
  "sem_calls cs (s, k) = Some (s', k') \<Longrightarrow>
   counter s' = counter s + int (count_list cs Up) - int (count_list cs Down)"
proof (induction cs arbitrary: s k)
  case Nil
  then show ?case by simp
next
  case (Cons c cs)
  show ?case
  proof (cases c)
    case Up
    then obtain s1 k1 where s1: "semaphore_up s k = Returns (s1, k1) \<or> semaphore_up s k = Switches (s1, k1)"
      "sem_calls cs (s1, k1) = Some (s', k')"
      using Cons.prems by (auto split: outcome.splits)
    then have "counter s1 = counter s + 1"
      by (auto simp: semaphore_up_def Let_def split: if_splits option.splits)
    then show ?thesis using Cons.IH [OF s1(2)] Up by simp
  next
    case Down
    then obtain s1 k1 where s1: "semaphore_down s k = Returns (s1, k1) \<or> semaphore_down s k = Switches (s1, k1)"
      "sem_calls cs (s1, k1) = Some (s', k')"
      using Cons.prems by (auto split: outcome.splits)
    then have "counter s1 = counter s - 1"
      by (auto simp: semaphore_down_def Let_def split: if_splits option.splits)
    then show ?thesis using Cons.IH [OF s1(2)] Down by simp
  qed
qed

section \<open>Facts about the mailbox buffer\<close>

lemma smod_pos: "0 \<le> (x::int) \<Longrightarrow> 0 < b \<Longrightarrow> x smod b = x mod b"
  by (simp add: signed_modulo_int_def sgn_if)

lemma ring_index_mod:
  "0 \<le> start \<Longrightarrow> 0 < bsize \<Longrightarrow> ring_index bsize start i = nat ((start + int i) mod bsize)"
  by (simp add: ring_index_def smod_pos)

lemma ring_index_less:
  "0 \<le> start \<Longrightarrow> 0 < bsize \<Longrightarrow> ring_index bsize start i < nat bsize"
  by (simp add: ring_index_mod nat_less_iff)

lemma ring_index_inj:
  assumes "0 \<le> start" "0 < bsize" "i < j" "int j < bsize"
  shows "ring_index bsize start i \<noteq> ring_index bsize start j"
proof
  assume "ring_index bsize start i = ring_index bsize start j"
  then have "(start + int i) mod bsize = (start + int j) mod bsize"
    using assms(1,2) by (simp add: ring_index_mod nat_eq_iff)
  then have "bsize dvd (start + int j) - (start + int i)"
    by (metis mod_eq_dvd_iff)
  then have "bsize dvd int j - int i" by simp
  moreover have "0 < int j - int i" "int j - int i < bsize" using assms(3,4) by simp_all
  ultimately show False by (meson zdvd_not_zless)
qed

lemma length_copy_in: "length (copy_in bsize start m n buf) = length buf"
  unfolding copy_in_def by (induction n) simp_all

lemma length_copy_out: "length (copy_out bsize start buf n m) = length m"
  unfolding copy_out_def by (induction n) simp_all

lemma copy_in_nth:
  assumes "0 \<le> start" "0 < bsize" "int (length buf) = bsize"
  shows "int n \<le> bsize \<Longrightarrow> i < n \<Longrightarrow> copy_in bsize start m n buf ! ring_index bsize start i = m ! i"
proof (induction n)
  case 0
  then show ?case by simp
next
  case (Suc n)
  have lt: "ring_index bsize start n < length (copy_in bsize start m n buf)"
    using ring_index_less [OF assms(1,2), of n] assms(3) by (simp add: length_copy_in)
  have step: "copy_in bsize start m (Suc n) buf
      = (copy_in bsize start m n buf)[ring_index bsize start n := m ! n]"
    by (simp add: copy_in_def)
  show ?case
  proof (cases "i = n")
    case True
    then show ?thesis using lt by (simp add: step)
  next
    case False
    then have "i < n" using Suc.prems by simp
    moreover have "ring_index bsize start i \<noteq> ring_index bsize start n"
      using ring_index_inj [OF assms(1,2) \<open>i < n\<close>] Suc.prems(1) by simp
    ultimately show ?thesis using Suc by (simp add: step)
  qed
qed

lemma copy_out_eq:
  "n \<le> length m \<Longrightarrow>
   copy_out bsize start buf n m = map (\<lambda>i. buf ! ring_index bsize start i) [0..<n] @ drop n m"
proof (induction n)
  case 0
  then show ?case by (simp add: copy_out_def)
next
  case (Suc n)
  have step: "copy_out bsize start buf (Suc n) m
      = (copy_out bsize start buf n m)[n := buf ! ring_index bsize start n]"
    by (simp add: copy_out_def)
  have "n < length m" using Suc.prems by simp
  then have "drop n m = m ! n # drop (Suc n) m" by (simp add: Cons_nth_drop_Suc)
  then show ?case using Suc by (simp add: step list_update_append)
qed

lemma copy_in_out:
  assumes "0 \<le> start" "0 < bsize" "int (length buf) = bsize" "int n \<le> bsize"
    "n \<le> length d" "n \<le> length m"
  shows "copy_out bsize start (copy_in bsize start m n buf) n d = take n m @ drop n d"
proof -
  have "map (\<lambda>i. copy_in bsize start m n buf ! ring_index bsize start i) [0..<n]
      = map (\<lambda>i. m ! i) [0..<n]"
    using copy_in_nth [OF assms(1-3) assms(4)] by (intro map_cong refl) simp
  also have "\<dots> = take n m" using assms(6) by (intro nth_equalityI) simp_all
  finally show ?thesis using assms(5) by (simp add: copy_out_eq)
qed

lemma msg_size_cong:
  "take 4 a = take 4 b \<Longrightarrow> 4 \<le> length a \<Longrightarrow> 4 \<le> length b \<Longrightarrow> msg_size a = msg_size b"
proof -
  assume t: "take 4 a = take 4 b" and l: "4 \<le> length a" "4 \<le> length b"
  have "\<And>i. i < 4 \<Longrightarrow> a ! i = b ! i"
  proof -
    fix i :: nat assume "i < 4"
    then have "a ! i = take 4 a ! i" "b ! i = take 4 b ! i" by simp_all
    then show "a ! i = b ! i" using t by simp
  qed
  then show ?thesis by (simp add: msg_size_def)
qed

lemma condition_broadcast_empty: "c_waiting c = 0 \<Longrightarrow> condition_broadcast c k = Some (c, k)"
  by (subst condition_broadcast.simps) simp

lemma msg_bytes_example: "msg_bytes [2, 0, 0, 0, 7, 8] = 6"
  by (simp add: msg_bytes_def msg_size_def word_rcat_def)

section \<open>Facts about the image builder\<close>













section \<open>Facts about the filesystem\<close>

lemma set_direct_simps:
  "get_direct (set_direct ino x v st) ino y
     = (if y = x \<and> x < INODE_NDIRECT st ino then v else get_direct st ino y)"
  "INODE_NDIRECT (set_direct ino x v st) ino = INODE_NDIRECT st ino"
  "super (set_direct ino x v st) = super st"
  "dblk_bmap (set_direct ino x v st) = dblk_bmap st"
  "disk (set_direct ino x v st) = disk st"
  "filedes (set_direct ino x v st) = filedes st"
  "SUPER_BLOCK_START (set_direct ino x v st) = SUPER_BLOCK_START st"
  "pos (inodes (set_direct ino x v st) j) = pos (inodes st j)"
  "d_size (d_inode (inodes (set_direct ino x v st) j)) = d_size (d_inode (inodes st j))"
  by (auto simp: set_direct_def get_direct_def INODE_NDIRECT_def nth_list_update
      list_update_beyond)

lemma bmap_upd_simps:
  "get_direct (st\<lparr>dblk_bmap := b\<rparr>) ino y = get_direct st ino y"
  "INODE_NDIRECT (st\<lparr>dblk_bmap := b\<rparr>) ino = INODE_NDIRECT st ino"
  by (simp_all add: get_direct_def INODE_NDIRECT_def)

lemma check_bit_set_other:
  assumes "check_bit (int j) b = 1"
  shows "check_bit (int j) (b[i := b ! i OR m]) = 1"
proof (cases "j div 8 = i \<and> i < length b")
  case True
  have "(b ! i OR m) AND msk (j mod 8) \<noteq> 0"
  proof
    assume z: "(b ! i OR m) AND msk (j mod 8) = 0"
    have "b ! i AND msk (j mod 8) = (b ! i AND msk (j mod 8)) AND ((b ! i OR m) AND msk (j mod 8))"
      by (simp add: bit_eq_iff bit_and_iff bit_or_iff) blast
    then have "b ! i AND msk (j mod 8) = 0" by (simp add: z)
    then show False using assms True by (simp add: check_bit_split)
  qed
  then show ?thesis using True by (simp add: check_bit_split)
next
  case False
  then have "b[i := b ! i OR m] ! (j div 8) = b ! (j div 8)"
    by (cases "i < length b") (auto simp: list_update_beyond)
  then show ?thesis using assms by (simp add: check_bit_split)
qed

lemma check_bit_set_self:
  assumes "n div 8 < length b"
  shows "check_bit (int n) (b[n div 8 := b ! (n div 8) OR msk (n mod 8)]) = 1"
proof -
  have "(b ! (n div 8) OR msk (n mod 8)) AND msk (n mod 8) = msk (n mod 8)"
    by (simp add: bit_eq_iff bit_and_iff bit_or_iff)
  moreover have "msk (n mod 8) \<noteq> 0" by (simp add: msk_def push_bit_eq_mult)
  ultimately show ?thesis using assms by (simp add: check_bit_split)
qed

lemma length_free_bitmap_entry: "length (snd (free_bitmap_entry e b)) = length b"
  by (simp add: free_bitmap_entry_def clear_bit_at_def Let_def)

lemma same_frame_refl: "same_frame st st"
  by (simp add: same_frame_def)

lemma same_frame_trans: "same_frame a b \<Longrightarrow> same_frame b c \<Longrightarrow> same_frame a c"
  by (simp add: same_frame_def)

lemma resize_slots_ok:
  assumes "resize_slots ino blocks xs st = (FSE_OK, st')"
    and "sorted xs" "distinct xs"
    and "\<forall>x \<in> set xs. x < INODE_NDIRECT st ino"
    and "slots_ranged st ino" "slots_distinct st ino"
    and "slots_marked st ino \<or> (\<forall>x \<in> set xs. blocks \<le> int x)"
    and "32 \<le> length (dblk_bmap st)"
  shows "slots_ranged st' ino \<and> slots_distinct st' ino \<and>
     INODE_NDIRECT st' ino = INODE_NDIRECT st ino \<and>
     (\<forall>x. x \<notin> set xs \<longrightarrow> get_direct st' ino x = get_direct st ino x) \<and>
     (\<forall>x \<in> set xs. int x < blocks \<longrightarrow> get_direct st' ino x \<noteq> - 1) \<and>
     same_frame st' st"
  using assms
proof (induction xs arbitrary: st)
  case Nil
  then show ?case by (simp add: same_frame_refl)
next
  case (Cons x xs)
  have srt: "sorted xs" "distinct xs" "x \<notin> set xs" "\<forall>y \<in> set xs. x \<le> y"
    using Cons.prems(2,3) by auto
  have xlt: "x < INODE_NDIRECT st ino" using Cons.prems(4) by simp
  show ?case
  proof (cases "int x < blocks")
    case True
    note xb = this
    show ?thesis
    proof (cases "get_direct st ino x = - 1")
      case False
      then have r: "resize_slots ino blocks xs st = (FSE_OK, st')"
        using Cons.prems(1) xb by simp
      have "\<forall>x \<in> set xs. x < INODE_NDIRECT st ino" using Cons.prems(4) by simp
      moreover have "slots_marked st ino \<or> (\<forall>x \<in> set xs. blocks \<le> int x)"
        using Cons.prems(7) by auto
      ultimately have ih: "slots_ranged st' ino \<and> slots_distinct st' ino \<and>
         INODE_NDIRECT st' ino = INODE_NDIRECT st ino \<and>
         (\<forall>x. x \<notin> set xs \<longrightarrow> get_direct st' ino x = get_direct st ino x) \<and>
         (\<forall>x \<in> set xs. int x < blocks \<longrightarrow> get_direct st' ino x \<noteq> - 1) \<and>
         same_frame st' st"
        using Cons.IH [OF r srt(1,2)] Cons.prems(5,6,8) by blast
      then have "get_direct st' ino x = get_direct st ino x" using srt(3) by blast
      then show ?thesis using ih False by auto
    next
      case True
      note free = this
      obtain e bm where g: "get_free_entry (dblk_bmap st) = (e, bm)" by fastforce
      define st1 where "st1 = set_direct ino x e (st\<lparr>dblk_bmap := bm\<rparr>)"
      have d1: "\<And>y. get_direct st1 ino y = (if y = x then e else get_direct st ino y)"
        using xlt by (simp add: st1_def set_direct_simps bmap_upd_simps)
      have n1: "INODE_NDIRECT st1 ino = INODE_NDIRECT st ino"
        by (simp add: st1_def set_direct_simps bmap_upd_simps)
      have b1: "dblk_bmap st1 = bm" "super st1 = super st"
        by (simp_all add: st1_def set_direct_simps)
      have f1: "same_frame st1 st"
        by (simp add: same_frame_def st1_def set_direct_simps)
      have ok: "e \<noteq> - 1" "e < ndata_blks (super st)"
        and r: "resize_slots ino blocks xs st1 = (FSE_OK, st')"
        using Cons.prems(1) xb free g d1 [of x] b1
        by (auto simp: st1_def [symmetric] FSE_OK_def FSE_FULL_def split: if_splits)
      from get_free_entry_cases [OF g] ok(1) obtain n where n: "n < 256" "e = int n"
        "check_bit (int n) (dblk_bmap st) = 0"
        "bm = (dblk_bmap st)[n div 8 := dblk_bmap st ! (n div 8) OR msk (n mod 8)]" by auto
      have mk: "slots_marked st ino" using Cons.prems(7) xb by auto
      have old: "\<And>y. y < INODE_NDIRECT st ino \<Longrightarrow> get_direct st ino y \<noteq> - 1 \<Longrightarrow>
          get_direct st ino y \<noteq> e \<and> check_bit (get_direct st ino y) bm = 1"
      proof -
        fix y assume y: "y < INODE_NDIRECT st ino" "get_direct st ino y \<noteq> - 1"
        then have c: "check_bit (get_direct st ino y) (dblk_bmap st) = 1"
          using mk by (simp add: slots_marked_def)
        have "0 \<le> get_direct st ino y" using y Cons.prems(5) by (simp add: slots_ranged_def)
        then obtain j where j: "get_direct st ino y = int j" using nonneg_int_cases by blast
        have "check_bit (int j) bm = 1" using c j check_bit_set_other [of j] by (simp add: n(4))
        moreover have "int j \<noteq> e" using c j n(2,3) by auto
        ultimately show "get_direct st ino y \<noteq> e \<and> check_bit (get_direct st ino y) bm = 1"
          using j by simp
      qed
      have self: "check_bit e bm = 1"
        using n(1) Cons.prems(8) check_bit_set_self [of n "dblk_bmap st"] by (simp add: n(2,4))
      have rng1: "slots_ranged st1 ino"
        using Cons.prems(5) ok n(1,2) by (auto simp: slots_ranged_def d1 n1 b1)
      have dst1: "slots_distinct st1 ino"
        unfolding slots_distinct_def n1 d1
      proof (intro allI impI)
        fix a c assume a: "a < INODE_NDIRECT st ino" and c: "c < INODE_NDIRECT st ino"
          and ac: "a \<noteq> c" and al: "(if a = x then e else get_direct st ino a) \<noteq> - 1"
        show "(if a = x then e else get_direct st ino a) \<noteq> (if c = x then e else get_direct st ino c)"
        proof (cases "a = x")
          case True
          then have "c \<noteq> x" using ac by simp
          then show ?thesis using True old [OF c] ok(1) by (cases "get_direct st ino c = - 1") auto
        next
          case False
          then have ga: "get_direct st ino a \<noteq> - 1" using al by simp
          show ?thesis
          proof (cases "c = x")
            case True
            then show ?thesis using False old [OF a ga] by simp
          next
            case False
            then show ?thesis using \<open>a \<noteq> x\<close> Cons.prems(6) a c ac ga
              by (simp add: slots_distinct_def)
          qed
        qed
      qed
      have mk1: "slots_marked st1 ino"
        using old self by (auto simp: slots_marked_def d1 n1 b1)
      have len1: "32 \<le> length (dblk_bmap st1)" using Cons.prems(8) by (simp add: b1 n(4))
      have in1: "\<forall>x \<in> set xs. x < INODE_NDIRECT st1 ino" using Cons.prems(4) by (simp add: n1)
      have ih: "slots_ranged st' ino \<and> slots_distinct st' ino \<and>
         INODE_NDIRECT st' ino = INODE_NDIRECT st1 ino \<and>
         (\<forall>x. x \<notin> set xs \<longrightarrow> get_direct st' ino x = get_direct st1 ino x) \<and>
         (\<forall>x \<in> set xs. int x < blocks \<longrightarrow> get_direct st' ino x \<noteq> - 1) \<and>
         same_frame st' st1"
        using Cons.IH [OF r srt(1,2) in1 rng1 dst1 _ len1] mk1 by blast
      then have "get_direct st' ino x = e" using srt(3) d1 [of x] by simp
      moreover have "same_frame st' st" using ih f1 same_frame_trans by blast
      ultimately show ?thesis using ih ok(1) d1 n1 by auto
    qed
  next
    case False
    note xb = this
    define st1 where "st1 = (if get_direct st ino x \<noteq> - 1
      then st\<lparr>dblk_bmap := snd (free_bitmap_entry (get_direct st ino x) (dblk_bmap st))\<rparr>
      else st)"
    have r: "resize_slots ino blocks xs st1 = (FSE_OK, st')"
      using Cons.prems(1) xb by (simp add: st1_def split: if_splits)
    have d1: "\<And>y. get_direct st1 ino y = get_direct st ino y"
      by (simp add: st1_def bmap_upd_simps)
    have n1: "INODE_NDIRECT st1 ino = INODE_NDIRECT st ino"
      by (simp add: st1_def bmap_upd_simps)
    have s1: "super st1 = super st" by (simp add: st1_def)
    have f1: "same_frame st1 st" by (simp add: same_frame_def st1_def)
    have rng1: "slots_ranged st1 ino" using Cons.prems(5) by (simp add: slots_ranged_def d1 n1 s1)
    have dst1: "slots_distinct st1 ino" using Cons.prems(6) by (simp add: slots_distinct_def d1 n1)
    have later: "\<forall>y \<in> set xs. blocks \<le> int y" using srt(4) xb by auto
    have len1: "32 \<le> length (dblk_bmap st1)"
      using Cons.prems(8) by (simp add: st1_def length_free_bitmap_entry)
    have in1: "\<forall>x \<in> set xs. x < INODE_NDIRECT st1 ino" using Cons.prems(4) by (simp add: n1)
    have ih: "slots_ranged st' ino \<and> slots_distinct st' ino \<and>
         INODE_NDIRECT st' ino = INODE_NDIRECT st1 ino \<and>
         (\<forall>x. x \<notin> set xs \<longrightarrow> get_direct st' ino x = get_direct st1 ino x) \<and>
         (\<forall>x \<in> set xs. int x < blocks \<longrightarrow> get_direct st' ino x \<noteq> - 1) \<and>
         same_frame st' st1"
      using Cons.IH [OF r srt(1,2) in1 rng1 dst1 _ len1] later by blast
    moreover have "same_frame st' st" using ih f1 same_frame_trans by blast
    ultimately show ?thesis using xb d1 n1 by auto
  qed
qed

lemma sdiv512: "0 \<le> (a::int) \<Longrightarrow> a sdiv 512 = a div 512"
  by (simp add: signed_divide_int_def sgn_if)

lemma smod512: "0 \<le> (a::int) \<Longrightarrow> a smod 512 = a mod 512"
  by (simp add: signed_modulo_int_def sgn_if)

lemma slot_addr_disk [simp]: "slot_addr C (st\<lparr>disk := D\<rparr>) ino y = slot_addr C st ino y"
  by (simp add: slot_addr_def idx2blk_def get_direct_def)

lemma db_write_loop_exit:
  "\<not> (x < fb \<and> w < d_size (d_inode (inodes st ino))) \<Longrightarrow>
   db_write_loop C ino buf 0 fp fb x w st = (w, st)"
  by (subst db_write_loop.simps) auto

lemma db_write_loop_step:
  assumes "0 \<le> x" "x < fb" "512 * x < N" "d_size (d_inode (inodes st ino)) = N"
  shows "db_write_loop C ino buf 0 N fb x (512 * x) st
     = db_write_loop C ino buf 0 N fb (x + 1) (512 * x + (if x + 1 = fb then N - 512 * x else 512))
         (st\<lparr>disk := block_modify (slot_addr C st ino x) 0
            (take (nat (if x + 1 = fb then N - 512 * x else 512)) (drop (nat (512 * x)) buf))
            (disk st)\<rparr>)"
proof (cases "x = 0")
  case True
  then show ?thesis using assms
    by (subst db_write_loop.simps)
      (simp add: BLOCK_SIZE_def signed_divide_int_def signed_modulo_int_def slot_addr_def Let_def)
next
  case False
  then show ?thesis using assms
    by (subst db_write_loop.simps)
      (simp add: BLOCK_SIZE_def signed_divide_int_def signed_modulo_int_def slot_addr_def Let_def)
qed

lemma db_read_loop_exit:
  "\<not> (x < fb \<and> r < d_size (d_inode (inodes st ino))) \<Longrightarrow>
   db_read_loop C ino 0 fp fb st x r b = (r, b)"
  by (subst db_read_loop.simps) auto

lemma db_read_loop_step:
  assumes "0 \<le> x" "x < fb" "512 * x < N" "d_size (d_inode (inodes st ino)) = N"
  shows "db_read_loop C ino 0 N fb st x (512 * x) b
     = db_read_loop C ino 0 N fb st (x + 1) (512 * x + (if x + 1 = fb then N - 512 * x else 512))
         (store_at (512 * x)
            (block_read_part (slot_addr C st ino x) 0 (if x + 1 = fb then N - 512 * x else 512)
               (disk st)) b)"
proof (cases "x = 0")
  case True
  then show ?thesis using assms
    by (subst db_read_loop.simps)
      (simp add: BLOCK_SIZE_def signed_divide_int_def signed_modulo_int_def slot_addr_def Let_def)
next
  case False
  then show ?thesis using assms
    by (subst db_read_loop.simps)
      (simp add: BLOCK_SIZE_def signed_divide_int_def signed_modulo_int_def slot_addr_def Let_def)
qed

lemma block_modify_zero:
  "block_modify a 0 data D = D(a := take 512 (data @ drop (length data) (D a)))"
  by (simp add: block_modify_def BLOCK_SIZE_def)

lemma div512_bounds:
  fixes N :: int
  shows "512 * (N div 512) \<le> N" "N < 512 * (N div 512) + 512"
proof -
  define q where "q = N div 512"
  define r where "r = N mod 512"
  have "N = 512 * q + r" "0 \<le> r" "r < 512" by (simp_all add: q_def r_def)
  then have "512 * q \<le> N" "N < 512 * q + 512" by linarith+
  then show "512 * (N div 512) \<le> N" "N < 512 * (N div 512) + 512" by (simp_all add: q_def)
qed

lemma last_chunk:
  fixes N x :: int
  assumes "0 \<le> N" "x + 1 = N div 512 + 1"
  shows "N - 512 * x < 512" "0 \<le> N - 512 * x"
proof -
  have x: "x = N div 512" using assms(2) by simp
  show "N - 512 * x < 512" "0 \<le> N - 512 * x"
    using div512_bounds [of N] unfolding x by linarith+
qed

lemma inner_chunk:
  fixes N x :: int
  assumes "0 \<le> N" "x + 1 < N div 512 + 1"
  shows "512 * (x + 1) \<le> N"
proof -
  define q where "q = N div 512"
  have "x + 1 \<le> q" using assms(2) by (simp add: q_def)
  then have "512 * (x + 1) \<le> 512 * q" by simp
  moreover have "512 * q \<le> N" using div512_bounds(1) [of N] by (simp add: q_def)
  ultimately show ?thesis by linarith
qed

lemma beyond_last:
  fixes N y :: int
  assumes "0 \<le> N" "N div 512 + 1 \<le> y"
  shows "N < 512 * y"
proof -
  define q where "q = N div 512"
  have "N < 512 * q + 512" using div512_bounds(2) [of N] by (simp add: q_def)
  then have "N < 512 * (q + 1)" by (simp add: algebra_simps)
  also have "\<dots> \<le> 512 * y" using assms(2) by (simp add: q_def)
  finally show ?thesis .
qed

lemma db_write_loop_ok:
  fixes N :: int
  assumes "0 \<le> N" "int (length buf) = N"
    and "d_size (d_inode (inodes st ino)) = N"
    and "\<forall>y z. 0 \<le> y \<and> y < z \<and> 512 * z < N \<longrightarrow> slot_addr C st ino y \<noteq> slot_addr C st ino z"
    and "0 \<le> x" "x < N div 512 + 1" "512 * x \<le> N"
  shows "\<exists>D'. db_write_loop C ino buf 0 N (N div 512 + 1) x (512 * x) (st\<lparr>disk := D\<rparr>)
        = (N, st\<lparr>disk := D'\<rparr>) \<and>
      (\<forall>y. x \<le> y \<and> 512 * y < N \<longrightarrow>
         take (chunk_len N y) (D' (slot_addr C st ino y))
           = take (chunk_len N y) (drop (nat (512 * y)) buf)) \<and>
      (\<forall>b. (\<forall>y. x \<le> y \<and> 512 * y < N \<longrightarrow> b \<noteq> slot_addr C st ino y) \<longrightarrow> D' b = D b)"
  using assms(5-7)
proof (induction "nat (N div 512 + 1 - x)" arbitrary: x D)
  case 0
  then show ?case by simp
next
  case (Suc m)
  let ?fb = "N div 512 + 1"
  let ?st = "st\<lparr>disk := D\<rparr>"
  have sz: "d_size (d_inode (inodes ?st ino)) = N" using assms(3) by simp
  show ?case
  proof (cases "512 * x < N")
    case False
    then have e: "512 * x = N" using Suc.prems(3) by simp
    have "db_write_loop C ino buf 0 N ?fb x (512 * x) ?st = (512 * x, ?st)"
      using e sz by (intro db_write_loop_exit) simp
    then show ?thesis using e by (intro exI [of _ D]) auto
  next
    case True
    define cnt where "cnt = (if x + 1 = ?fb then N - 512 * x else 512)"
    define data where "data = take (nat cnt) (drop (nat (512 * x)) buf)"
    define a where "a = slot_addr C st ino x"
    define D1 where "D1 = block_modify a 0 data D"
    have cb: "0 < cnt" "cnt \<le> 512" "512 * x + cnt \<le> N" "cnt = int (chunk_len N x)"
    proof -
      show "0 < cnt" using True by (simp add: cnt_def)
      show "cnt \<le> 512" using last_chunk(1) [OF assms(1), of x]
        by (cases "x + 1 = ?fb") (simp_all add: cnt_def)
      show "512 * x + cnt \<le> N"
        using inner_chunk [OF assms(1), of x] Suc.prems(2) by (simp add: cnt_def)
      show "cnt = int (chunk_len N x)"
        using last_chunk(1) [OF assms(1), of x] inner_chunk [OF assms(1), of x] Suc.prems(2) True
        by (cases "x + 1 = ?fb") (simp_all add: cnt_def chunk_len_def min_def)
    qed
    have ld: "length data = nat cnt"
      using cb assms(2) Suc.prems(1) by (simp add: data_def min_def) linarith
    have step: "db_write_loop C ino buf 0 N ?fb x (512 * x) ?st
        = db_write_loop C ino buf 0 N ?fb (x + 1) (512 * x + cnt) (st\<lparr>disk := D1\<rparr>)"
      using db_write_loop_step [OF Suc.prems(1,2) True sz, of C buf]
      by (simp add: cnt_def data_def D1_def a_def)
    have D1a: "take (chunk_len N x) (D1 a) = take (chunk_len N x) (drop (nat (512 * x)) buf)"
    proof -
      have "D1 a = take 512 (data @ drop (length data) (D a))"
        by (simp add: D1_def block_modify_zero)
      then have "take (nat cnt) (D1 a) = data" using ld cb(2) by (simp add: min_def)
      then show ?thesis using cb(4) by (simp add: data_def)
    qed
    have D1o: "\<And>b. b \<noteq> a \<Longrightarrow> D1 b = D b" by (simp add: D1_def block_modify_zero)
    show ?thesis
    proof (cases "x + 1 = ?fb")
      case True
      then have w: "512 * x + cnt = N" by (simp add: cnt_def)
      have "db_write_loop C ino buf 0 N ?fb (x + 1) (512 * x + cnt) (st\<lparr>disk := D1\<rparr>)
          = (512 * x + cnt, st\<lparr>disk := D1\<rparr>)"
        using True by (intro db_write_loop_exit) simp
      then have r: "db_write_loop C ino buf 0 N ?fb x (512 * x) ?st = (N, st\<lparr>disk := D1\<rparr>)"
        using step w by simp
      have only: "\<And>y. x \<le> y \<Longrightarrow> 512 * y < N \<Longrightarrow> y = x"
      proof -
        fix y assume y: "x \<le> y" "512 * y < N"
        have "\<not> ?fb \<le> y" using beyond_last [OF assms(1), of y] y(2) by auto
        then show "y = x" using y(1) True by simp
      qed
      show ?thesis
      proof (intro exI [of _ D1] conjI allI impI)
        show "db_write_loop C ino buf 0 N ?fb x (512 * x) ?st = (N, st\<lparr>disk := D1\<rparr>)" by (rule r)
      next
        fix y assume "x \<le> y \<and> 512 * y < N"
        then have "y = x" using only by blast
        then show "take (chunk_len N y) (D1 (slot_addr C st ino y))
            = take (chunk_len N y) (drop (nat (512 * y)) buf)"
          using D1a by (simp add: a_def)
      next
        fix b assume "\<forall>y. x \<le> y \<and> 512 * y < N \<longrightarrow> b \<noteq> slot_addr C st ino y"
        then have "b \<noteq> a" using \<open>512 * x < N\<close> by (auto simp: a_def)
        then show "D1 b = D b" by (rule D1o)
      qed
    next
      case False
      then have lt: "x + 1 < ?fb" using Suc.prems(2) by simp
      have c512: "cnt = 512" using False by (simp add: cnt_def)
      have le: "512 * (x + 1) \<le> N" using inner_chunk [OF assms(1) lt] .
      have m: "m = nat (?fb - (x + 1))" using Suc.hyps(2) by linarith
      have x1: "0 \<le> x + 1" using Suc.prems(1) by simp
      from Suc.hyps(1) [OF m x1 lt le, of D1] obtain D' where D':
        "db_write_loop C ino buf 0 N ?fb (x + 1) (512 * (x + 1)) (st\<lparr>disk := D1\<rparr>)
           = (N, st\<lparr>disk := D'\<rparr>)"
        "\<forall>y. x + 1 \<le> y \<and> 512 * y < N \<longrightarrow>
           take (chunk_len N y) (D' (slot_addr C st ino y))
             = take (chunk_len N y) (drop (nat (512 * y)) buf)"
        "\<forall>b. (\<forall>y. x + 1 \<le> y \<and> 512 * y < N \<longrightarrow> b \<noteq> slot_addr C st ino y) \<longrightarrow> D' b = D1 b"
        by blast
      have r: "db_write_loop C ino buf 0 N ?fb x (512 * x) ?st = (N, st\<lparr>disk := D'\<rparr>)"
        using step D'(1) c512 by (simp add: algebra_simps)
      have afresh: "\<forall>y. x + 1 \<le> y \<and> 512 * y < N \<longrightarrow> a \<noteq> slot_addr C st ino y"
        using assms(4) Suc.prems(1) by (auto simp: a_def)
      then have Da: "D' a = D1 a" using D'(3) by blast
      show ?thesis
      proof (intro exI [of _ D'] conjI allI impI)
        show "db_write_loop C ino buf 0 N ?fb x (512 * x) ?st = (N, st\<lparr>disk := D'\<rparr>)" by (rule r)
      next
        fix y assume y: "x \<le> y \<and> 512 * y < N"
        show "take (chunk_len N y) (D' (slot_addr C st ino y))
            = take (chunk_len N y) (drop (nat (512 * y)) buf)"
        proof (cases "y = x")
          case True
          then show ?thesis using D1a Da by (simp add: a_def)
        next
          case False
          then have "x + 1 \<le> y" using y by simp
          then show ?thesis using D'(2) y by blast
        qed
      next
        fix b assume b: "\<forall>y. x \<le> y \<and> 512 * y < N \<longrightarrow> b \<noteq> slot_addr C st ino y"
        then have "b \<noteq> a" using \<open>512 * x < N\<close> by (auto simp: a_def)
        moreover have "\<forall>y. x + 1 \<le> y \<and> 512 * y < N \<longrightarrow> b \<noteq> slot_addr C st ino y"
          using b by auto
        ultimately show "D' b = D b" using D'(3) D1o by simp
      qed
    qed
  qed
qed

lemma db_read_loop_ok:
  fixes N :: int
  assumes "0 \<le> N" "int (length buf) = N"
    and "d_size (d_inode (inodes st ino)) = N"
    and "\<forall>y. 0 \<le> y \<and> 512 * y < N \<longrightarrow>
           take (chunk_len N y) (disk st (slot_addr C st ino y))
             = take (chunk_len N y) (drop (nat (512 * y)) buf)"
    and "0 \<le> x" "x < N div 512 + 1" "512 * x \<le> N"
    and "int (length b) = N" "take (nat (512 * x)) b = take (nat (512 * x)) buf"
  shows "db_read_loop C ino 0 N (N div 512 + 1) st x (512 * x) b = (N, buf)"
  using assms(5-9)
proof (induction "nat (N div 512 + 1 - x)" arbitrary: x b)
  case 0
  then show ?case by simp
next
  case (Suc m)
  let ?fb = "N div 512 + 1"
  show ?case
  proof (cases "512 * x < N")
    case False
    then have e: "512 * x = N" using Suc.prems(3) by simp
    have "db_read_loop C ino 0 N ?fb st x (512 * x) b = (512 * x, b)"
      using e assms(3) by (intro db_read_loop_exit) simp
    moreover have "b = buf"
    proof -
      have "take (length b) b = take (length buf) buf"
        using Suc.prems(4,5) assms(2) e by (metis nat_int)
      then show ?thesis by simp
    qed
    ultimately show ?thesis using e by simp
  next
    case True
    define cnt where "cnt = (if x + 1 = ?fb then N - 512 * x else 512)"
    define data where "data = block_read_part (slot_addr C st ino x) 0 cnt (disk st)"
    define b1 where "b1 = store_at (512 * x) data b"
    have cb: "0 < cnt" "512 * x + cnt \<le> N" "cnt = int (chunk_len N x)"
    proof -
      show "0 < cnt" using True by (simp add: cnt_def)
      show "512 * x + cnt \<le> N"
        using inner_chunk [OF assms(1), of x] Suc.prems(2) by (simp add: cnt_def)
      show "cnt = int (chunk_len N x)"
        using last_chunk(1) [OF assms(1), of x] inner_chunk [OF assms(1), of x] Suc.prems(2) True
        by (cases "x + 1 = ?fb") (simp_all add: cnt_def chunk_len_def min_def)
    qed
    have step: "db_read_loop C ino 0 N ?fb st x (512 * x) b
        = db_read_loop C ino 0 N ?fb st (x + 1) (512 * x + cnt) b1"
      using db_read_loop_step [OF Suc.prems(1,2) True assms(3), of C b]
      by (simp add: cnt_def data_def b1_def)
    have dat: "data = take (nat cnt) (drop (nat (512 * x)) buf)"
      using assms(4) Suc.prems(1) True cb(3) by (simp add: data_def block_read_part_def)
    have ld: "length data = nat cnt"
      using cb assms(2) Suc.prems(1) by (simp add: dat min_def) linarith
    have nn: "nat (512 * x) + nat cnt = nat (512 * x + cnt)"
      using Suc.prems(1) cb(1) by (simp add: nat_add_distrib)
    have b1eq: "b1 = take (nat (512 * x + cnt)) buf @ drop (nat (512 * x + cnt)) b"
    proof -
      have "b1 = take (nat (512 * x)) buf @ take (nat cnt) (drop (nat (512 * x)) buf)
          @ drop (nat (512 * x) + nat cnt) b"
        using Suc.prems(5) ld by (simp add: b1_def store_at_def dat)
      then show ?thesis by (simp add: nn [symmetric] take_add)
    qed
    have l1: "int (length b1) = N"
      using cb assms(2) Suc.prems(1,4) by (simp add: b1eq min_def) linarith
    have t1: "take (nat (512 * x + cnt)) b1 = take (nat (512 * x + cnt)) buf"
    proof -
      have "nat (512 * x + cnt) \<le> length buf" using cb(2) assms(2) by linarith
      then show ?thesis by (simp add: b1eq min_def)
    qed
    show ?thesis
    proof (cases "x + 1 = ?fb")
      case True
      then have w: "512 * x + cnt = N" by (simp add: cnt_def)
      have "db_read_loop C ino 0 N ?fb st (x + 1) (512 * x + cnt) b1 = (512 * x + cnt, b1)"
        using True by (intro db_read_loop_exit) simp
      moreover have "b1 = buf"
      proof -
        have "nat N = length buf" "nat N = length b" using assms(2) Suc.prems(4) by linarith+
        then show ?thesis by (simp add: b1eq w)
      qed
      ultimately show ?thesis using step w by simp
    next
      case False
      then have lt: "x + 1 < ?fb" using Suc.prems(2) by simp
      have c512: "cnt = 512" using False by (simp add: cnt_def)
      have le: "512 * (x + 1) \<le> N" using inner_chunk [OF assms(1) lt] .
      have m: "m = nat (?fb - (x + 1))" using Suc.hyps(2) by linarith
      have x1: "0 \<le> x + 1" using Suc.prems(1) by simp
      have e: "512 * (x + 1) = 512 * x + cnt" by (simp add: c512)
      have "db_read_loop C ino 0 N ?fb st (x + 1) (512 * (x + 1)) b1 = (N, buf)"
        using Suc.hyps(1) [OF m x1 lt le l1] t1 by (simp only: e)
      then show ?thesis using step by (simp only: e)
    qed
  qed
qed

lemma load_bitmaps_simps:
  "get_direct (load_bitmaps st) ino y = get_direct st ino y"
  "INODE_NDIRECT (load_bitmaps st) ino = INODE_NDIRECT st ino"
  "super (load_bitmaps st) = super st"
  "same_frame (load_bitmaps st) st"
  by (simp_all add: load_bitmaps_def get_direct_def INODE_NDIRECT_def same_frame_def)

lemma resize_inode_ok:
  assumes r: "resize_inode C ino N st = (FSE_OK, str)" and ok: "inode_blocks_ok st ino"
  shows "d_size (d_inode (inodes str ino)) = N"
    and "pos (inodes str ino) = pos (inodes st ino)"
    and "filedes str = filedes st" "super str = super st"
    and "SUPER_BLOCK_START str = SUPER_BLOCK_START st"
    and "INODE_NDIRECT str ino = INODE_NDIRECT st ino"
    and "slots_ranged str ino" "slots_distinct str ino"
    and "\<forall>x < INODE_NDIRECT st ino. int x < N sdiv 512 + 1 \<longrightarrow> get_direct str ino x \<noteq> - 1"
    and "N \<le> max_filesize (super st)"
proof -
  let ?l = "load_bitmaps st"
  let ?xs = "[0..<INODE_NDIRECT ?l ino]"
  show nm: "N \<le> max_filesize (super st)"
    using r by (auto simp: resize_inode_def FSE_OK_def FSE_INODETABLEFULL_def split: if_splits)
  obtain r2 st2 where s: "resize_slots ino (N sdiv BLOCK_SIZE + 1) ?xs ?l = (r2, st2)"
    by fastforce
  have r2: "r2 = FSE_OK" and str: "str = save_inode C ino (save_bitmaps (set_size ino N st2))"
    using r nm s by (auto simp: resize_inode_def Let_def split: if_splits)
  have len: "32 \<le> length (dblk_bmap ?l)"
    using ok by (simp add: inode_blocks_ok_def load_bitmaps_def block_read_part_def
        BITMAP_ENTRIES_def)
  have pre: "slots_ranged ?l ino" "slots_distinct ?l ino" "slots_marked ?l ino"
    using ok by (simp_all add: inode_blocks_ok_def slots_ranged_def slots_distinct_def
        load_bitmaps_simps)
  have "sorted ?xs" "distinct ?xs" "\<forall>x \<in> set ?xs. x < INODE_NDIRECT ?l ino" by simp_all
  from resize_slots_ok [OF s [unfolded r2] this pre(1,2) _ len] pre(3)
  have p: "slots_ranged st2 ino" "slots_distinct st2 ino"
    "INODE_NDIRECT st2 ino = INODE_NDIRECT ?l ino"
    "\<forall>x \<in> set ?xs. int x < N sdiv BLOCK_SIZE + 1 \<longrightarrow> get_direct st2 ino x \<noteq> - 1"
    "same_frame st2 ?l" by blast+
  have fr: "same_frame st2 st" using p(5) load_bitmaps_simps(4) same_frame_trans by blast
  have g: "\<And>y. get_direct str ino y = get_direct st2 ino y"
    by (simp add: str save_inode_def save_bitmaps_def set_size_def get_direct_def Let_def)
  have n: "INODE_NDIRECT str ino = INODE_NDIRECT st2 ino"
    by (simp add: str save_inode_def save_bitmaps_def set_size_def INODE_NDIRECT_def Let_def)
  have su: "super str = super st2"
    by (simp add: str save_inode_def save_bitmaps_def set_size_def Let_def)
  show "d_size (d_inode (inodes str ino)) = N"
    by (simp add: str save_inode_def save_bitmaps_def set_size_def Let_def)
  show "pos (inodes str ino) = pos (inodes st ino)"
    using fr by (simp add: str save_inode_def save_bitmaps_def set_size_def Let_def same_frame_def)
  show "filedes str = filedes st" "super str = super st"
    "SUPER_BLOCK_START str = SUPER_BLOCK_START st"
    using fr by (simp_all add: str save_inode_def save_bitmaps_def set_size_def Let_def
        same_frame_def)
  show "INODE_NDIRECT str ino = INODE_NDIRECT st ino"
    using n p(3) by (simp add: load_bitmaps_simps)
  show "slots_ranged str ino" using p(1) by (simp add: slots_ranged_def g n su)
  show "slots_distinct str ino" using p(2) by (simp add: slots_distinct_def g n)
  show "\<forall>x < INODE_NDIRECT st ino. int x < N sdiv 512 + 1 \<longrightarrow> get_direct str ino x \<noteq> - 1"
    using p(4) by (simp add: g load_bitmaps_simps BLOCK_SIZE_def)
qed

lemma slot_addr_inj:
  fixes N :: int
  assumes rg: "slots_ranged st ino" and ds: "slots_distinct st ino"
    and al: "\<forall>x < INODE_NDIRECT st ino. int x < N div 512 + 1 \<longrightarrow> get_direct st ino x \<noteq> - 1"
    and nd: "ndata_blks (super st) = FS_BLOCKS C - INODE_BLOCKS - BITMAP_BLOCKS - 1"
    and mx: "N \<le> 512 * int (INODE_NDIRECT st ino)"
  shows "\<forall>y z. 0 \<le> y \<and> y < z \<and> 512 * z < N \<longrightarrow> slot_addr C st ino y \<noteq> slot_addr C st ino z"
proof (intro allI impI)
  fix y z :: int assume h: "0 \<le> y \<and> y < z \<and> 512 * z < N"
  have zq: "z < N div 512 + 1"
  proof (rule ccontr)
    assume "\<not> z < N div 512 + 1"
    then have "N div 512 + 1 \<le> z" by simp
    then have "N < 512 * z" using beyond_last [of N z] h by simp
    then show False using h by simp
  qed
  have zn: "nat z < INODE_NDIRECT st ino" using h mx by linarith
  have yn: "nat y < INODE_NDIRECT st ino" using h zn by linarith
  have ne: "nat y \<noteq> nat z" using h by linarith
  have ay: "get_direct st ino (nat y) \<noteq> - 1" using al yn h zq by simp
  have az: "get_direct st ino (nat z) \<noteq> - 1" using al zn h zq by simp
  have d: "get_direct st ino (nat y) \<noteq> get_direct st ino (nat z)"
    using ds yn zn ne ay by (simp add: slots_distinct_def)
  have ry: "0 \<le> get_direct st ino (nat y)" "get_direct st ino (nat y) < ndata_blks (super st)"
    using rg yn ay by (simp_all add: slots_ranged_def)
  have rz: "0 \<le> get_direct st ino (nat z)" "get_direct st ino (nat z) < ndata_blks (super st)"
    using rg zn az by (simp_all add: slots_ranged_def)
  show "slot_addr C st ino y \<noteq> slot_addr C st ino z"
    using d ry rz nd by (simp add: slot_addr_def idx2blk_def)
qed

lemma mode_rdwr_bits:
  fixes m :: int
  assumes "m AND MODE_RDWR = MODE_RDWR"
  shows "m \<noteq> MODE_UNUSED" "m AND (MODE_WRONLY OR MODE_RDWR) \<noteq> 0"
    "m AND (MODE_RDONLY OR MODE_RDWR) \<noteq> 0"
proof -
  show "m \<noteq> MODE_UNUSED" using assms by (auto simp: MODE_UNUSED_def MODE_RDWR_def)
  show "m AND (MODE_WRONLY OR MODE_RDWR) \<noteq> 0" "m AND (MODE_RDONLY OR MODE_RDWR) \<noteq> 0"
    using assms by (simp_all add: MODE_WRONLY_def MODE_RDWR_def MODE_RDONLY_def)
qed

lemma set_pos_simps:
  "get_direct (set_pos ino p st) j y = get_direct st j y"
  "d_size (d_inode (inodes (set_pos ino p st) j)) = d_size (d_inode (inodes st j))"
  "pos (inodes (set_pos ino p st) ino) = p"
  "filedes (set_pos ino p st) = filedes st"
  "super (set_pos ino p st) = super st"
  "disk (set_pos ino p st) = disk st"
  "slot_addr C (set_pos ino p st) j z = slot_addr C st j z"
  by (simp_all add: set_pos_def get_direct_def slot_addr_def idx2blk_def)

lemma disk_upd_simps:
  "d_size (d_inode (inodes (st\<lparr>disk := D\<rparr>) j)) = d_size (d_inode (inodes st j))"
  "pos (inodes (st\<lparr>disk := D\<rparr>) j) = pos (inodes st j)"
  by simp_all

text \<open>
  On an inode whose allocated direct slots hold distinct data blocks of the
  filesystem that are marked used in the data bitmap on the disk, with the position
  at 0 and a descriptor that has both access bits, a write of \<open>n\<close> bytes for which
  \<open>resize_inode\<close> succeeds, a seek to 0 and a read of \<open>n\<close> bytes give the bytes
  written.
\<close>

lemma fs_write_lseek_read_roundtrip:
  assumes mode: "fd_mode (filedes st fd) AND MODE_RDWR = MODE_RDWR"
    and p0: "pos (inodes st (fd_idx (filedes st fd))) = 0"
    and len: "length buf = n" "length buf2 = n"
    and nmax: "int n \<le> max_filesize (super st)"
      "max_filesize (super st) \<le> 512 * int (INODE_NDIRECT st (fd_idx (filedes st fd)))"
    and nd: "ndata_blks (super st) = FS_BLOCKS C - INODE_BLOCKS - BITMAP_BLOCKS - 1"
    and ok: "inode_blocks_ok st (fd_idx (filedes st fd))"
    and res: "fst (resize_inode C (fd_idx (filedes st fd)) (int n) st) = FSE_OK"
  shows "\<exists>st1 st2 st3. fs_write C fd buf (int n) st = (int n, st1) \<and>
     fs_lseek C fd 0 SEEK_SET st1 = (FSE_OK, st2) \<and>
     fs_read C fd buf2 (int n) st2 = (int n, buf, st3)"
proof -
  define ino where "ino = fd_idx (filedes st fd)"
  define N where "N = int n"
  have N0: "0 \<le> N" by (simp add: N_def)
  obtain str where r: "resize_inode C ino N st = (FSE_OK, str)"
    using res by (cases "resize_inode C ino N st") (simp add: ino_def N_def)
  note R = resize_inode_ok [OF r ok [folded ino_def]]
  have sd: "N sdiv 512 = N div 512" using N0 by (rule sdiv512)
  have al: "\<forall>x < INODE_NDIRECT str ino. int x < N div 512 + 1 \<longrightarrow> get_direct str ino x \<noteq> - 1"
    using R(9) by (simp add: R(6) sd)
  have mx: "N \<le> 512 * int (INODE_NDIRECT str ino)"
    using nmax R(6) by (simp add: N_def ino_def)
  have inj: "\<forall>y z. 0 \<le> y \<and> y < z \<and> 512 * z < N \<longrightarrow>
      slot_addr C str ino y \<noteq> slot_addr C str ino z"
    using slot_addr_inj [OF R(7,8) al _ mx] nd by (simp add: R(4))
  have lb: "int (length buf) = N" "int (length buf2) = N" using len by (simp_all add: N_def)
  have x0: "(0::int) < N div 512 + 1" using N0 by (simp add: pos_imp_zdiv_nonneg_iff)
  from db_write_loop_ok [OF N0 lb(1) R(1) inj _ x0, of "disk str"] N0
  obtain D' where W: "db_write_loop C ino buf 0 N (N div 512 + 1) 0 0 (str\<lparr>disk := disk str\<rparr>)
        = (N, str\<lparr>disk := D'\<rparr>)"
    "\<forall>y. 0 \<le> y \<and> 512 * y < N \<longrightarrow>
         take (chunk_len N y) (D' (slot_addr C str ino y))
           = take (chunk_len N y) (drop (nat (512 * y)) buf)" by auto
  define stw where "stw = str\<lparr>disk := D'\<rparr>"
  have dbw: "db_write C ino buf N 0 st = (N, stw)"
    using r W(1) nmax(1) N0
    by (simp add: db_write_def Let_def BLOCK_SIZE_def sd N_def [symmetric] stw_def FSE_OK_def)
  have mw: "fd_mode (filedes stw fd) = fd_mode (filedes st fd)" "fd_idx (filedes stw fd) = ino"
    by (simp_all add: stw_def R(3) ino_def)
  have sw: "d_size (d_inode (inodes stw ino)) = N" "pos (inodes stw ino) = 0"
    using R(1,2) p0 by (simp_all add: stw_def ino_def)
  define st1 where "st1 = set_pos ino N stw"
  have seek1: "fs_lseek C fd N SEEK_CUR stw = (FSE_OK, st1)"
    using mode_rdwr_bits(1) [OF mode]
    by (simp add: fs_lseek_def Let_def mw sw SEEK_CUR_def SEEK_SET_def SEEK_END_def st1_def)
  have wr: "fs_write C fd buf N st = (N, st1)"
    using mode_rdwr_bits(2) [OF mode] dbw seek1 N0 p0
    by (simp add: fs_write_def Let_def ino_def [symmetric])
  have m1: "fd_mode (filedes st1 fd) = fd_mode (filedes st fd)" "fd_idx (filedes st1 fd) = ino"
    "d_size (d_inode (inodes st1 ino)) = N"
    using mw sw by (simp_all add: st1_def set_pos_simps)
  define st2 where "st2 = set_pos ino 0 st1"
  have seek2: "fs_lseek C fd 0 SEEK_SET st1 = (FSE_OK, st2)"
    using mode_rdwr_bits(1) [OF mode] N0
    by (simp add: fs_lseek_def Let_def m1 SEEK_CUR_def SEEK_SET_def SEEK_END_def st2_def)
  have m2: "fd_mode (filedes st2 fd) = fd_mode (filedes st fd)" "fd_idx (filedes st2 fd) = ino"
    "d_size (d_inode (inodes st2 ino)) = N" "pos (inodes st2 ino) = 0"
    using m1 by (simp_all add: st2_def set_pos_simps)
  have ch: "\<forall>y. 0 \<le> y \<and> 512 * y < N \<longrightarrow>
         take (chunk_len N y) (disk st2 (slot_addr C st2 ino y))
           = take (chunk_len N y) (drop (nat (512 * y)) buf)"
    using W(2) by (simp add: st2_def st1_def set_pos_simps stw_def)
  have rd: "db_read_loop C ino 0 N (N div 512 + 1) st2 0 0 buf2 = (N, buf)"
    using db_read_loop_ok [OF N0 lb(1) m2(3) ch _ x0 _ lb(2)] N0 by simp
  have dbr: "db_read C ino buf2 N 0 st2 = (N, buf)"
    using rd N0 m2(3) by (simp add: db_read_def Let_def BLOCK_SIZE_def sd)
  define st3 where "st3 = set_pos ino N st2"
  have seek3: "fs_lseek C fd N SEEK_CUR st2 = (FSE_OK, st3)"
    using mode_rdwr_bits(1) [OF mode]
    by (simp add: fs_lseek_def Let_def m2 SEEK_CUR_def SEEK_SET_def SEEK_END_def st3_def)
  have re: "fs_read C fd buf2 N st2 = (N, buf, st3)"
    using mode_rdwr_bits(3) [OF mode] dbr seek3 N0
    by (simp add: fs_read_def Let_def m2)
  show ?thesis using wr seek2 re by (auto simp: N_def)
qed

subsection \<open>Evaluation on concrete states\<close>

lemma sdiv_small:
  "(3::int) sdiv 512 = 0" "(0::int) sdiv 512 = 0" "(10::int) sdiv 512 = 0"
  "(0::int) smod 512 = 0" "(1::int) sdiv 512 = 0" "(1::int) smod 16 = 1" "(512::int) sdiv 32 = 16"
  "(1::int) sdiv 16 = 0" "(6::int) sdiv 512 = 0" "(3::int) smod 512 = 3"
  by (simp_all add: signed_divide_int_def signed_modulo_int_def)

lemmas fs_eval_defs = fs_read_def fs_write_def fs_lseek_def db_read_def db_write_def Let_def
  db_read_loop.simps db_write_loop.simps
  MODE_WRONLY_def MODE_RDONLY_def MODE_RDWR_def MODE_UNUSED_def SEEK_CUR_def SEEK_SET_def
  SEEK_END_def FSE_OK_def FSE_FULL_def FSE_EOF_def FSE_INVALIDMODE_def FSE_INODETABLEFULL_def
  BLOCK_SIZE_def INODE_SIZE_def sdiv_small
  idx2blk_def ino2blk_def get_direct_def example_config_def INODE_BLOCKS_def BITMAP_BLOCKS_def
  block_read_part_def block_modify_def store_at_def set_pos_def set_size_def set_direct_def
  resize_inode_def load_bitmaps_def save_bitmaps_def save_inode_def INODE_NDIRECT_def
  BITMAP_ENTRIES_def upt_conv_Cons get_free_entry_def take_msb_first_def
  free_bitmap_entry_def clear_bit_at_def

text \<open>
  A run on the file of \<open>empty_file_fs\<close>, call by call: a write of 600 bytes takes the
  data blocks 1 and 2; a write of 3 bytes at position 0 shrinks the file to one block,
  and the shrink branch of \<open>resize_inode\<close> clears the bit of block 2 in the bitmap
  but leaves it in direct slot 1; a write of 1025 bytes then gets block 2 from
  \<open>get_free_entry\<close> for slot 2 as well, and the third block of the file overwrites the
  second.
\<close>

lemma rep8: "replicate 8 x = [x, x, x, x, x, x, x, x]"
  by (simp add: numeral_eq_Suc)

lemmas fs_run_defs = fs_eval_defs signed_divide_int_def signed_modulo_int_def rep8
  one_file_fs_def fun_eq_iff replicate_add [symmetric]

lemma empty_file_fs_rdwr: "empty_file_fs MODE_RDWR
    = one_file_fs 0 0 (replicate 8 (- 1)) 0x80 (replicate 512 0) (replicate 512 0)"
  by (simp add: empty_file_fs_def fs_run_defs)

lemma write_600_bytes: "fs_write example_config 0 (replicate 600 0x61) 600
      (one_file_fs 0 0 (replicate 8 (- 1)) 0x80 (replicate 512 0) (replicate 512 0))
    = (600, one_file_fs 600 600 [1, 2, - 1, - 1, - 1, - 1, - 1, - 1] 0xE0
         (replicate 512 0x61) (replicate 88 0x61 @ replicate 424 0))"
  by (simp add: fs_run_defs)

lemma lseek_start: "fs_lseek example_config 0 0 SEEK_SET (one_file_fs sz p direct bm blk1 blk2)
    = (if 0 > sz then (FSE_EOF, one_file_fs sz p direct bm blk1 blk2)
       else (FSE_OK, one_file_fs sz 0 direct bm blk1 blk2))"
  by (simp add: fs_lseek_def one_file_fs_def set_pos_def Let_def SEEK_SET_def SEEK_CUR_def
      SEEK_END_def MODE_RDWR_def MODE_UNUSED_def MODE_RDONLY_def FSE_OK_def FSE_EOF_def)

lemma write_3_bytes_shrinks: "fs_write example_config 0 [0x62, 0x62, 0x62] 3
      (one_file_fs 600 0 [1, 2, - 1, - 1, - 1, - 1, - 1, - 1] 0xE0
         (replicate 512 0x61) (replicate 88 0x61 @ replicate 424 0))
    = (3, one_file_fs 3 3 [1, 2, - 1, - 1, - 1, - 1, - 1, - 1] 0xC0
         ([0x62, 0x62, 0x62] @ replicate 509 0x61) (replicate 88 0x61 @ replicate 424 0))"
  by (simp add: fs_run_defs)

lemma write_1025_bytes_reuses_block: "fs_write example_config 0 (replicate 1024 0x61 @ [0x62]) 1025
      (one_file_fs 3 0 [1, 2, - 1, - 1, - 1, - 1, - 1, - 1] 0xC0
         ([0x62, 0x62, 0x62] @ replicate 509 0x61) (replicate 88 0x61 @ replicate 424 0))
    = (1025, one_file_fs 1025 1025 [1, 2, 2, - 1, - 1, - 1, - 1, - 1] 0xE0
         (replicate 512 0x61) (0x62 # replicate 511 0x61))"
  by (simp add: fs_run_defs)

lemma read_1025_bytes: "fs_read example_config 0 (replicate 1025 0) 1025
      (one_file_fs 1025 0 [1, 2, 2, - 1, - 1, - 1, - 1, - 1] 0xE0
         (replicate 512 0x61) (0x62 # replicate 511 0x61))
    = (1025, replicate 512 0x61 @ (0x62 # replicate 511 0x61) @ [0x62],
       one_file_fs 1025 1025 [1, 2, 2, - 1, - 1, - 1, - 1, - 1] 0xE0
         (replicate 512 0x61) (0x62 # replicate 511 0x61))"
  by (simp add: fs_run_defs)

section \<open>Claims about the bitmaps\<close>

text \<open>
  Claim C9, as the code has it. For every 256-byte bitmap \<open>b\<close>, if \<open>get_free_entry\<close>
  leaves the bitmap \<open>b'\<close> and returns \<open>e\<close>, then \<open>free_bitmap_entry e\<close> on \<open>b'\<close>
  gives \<open>b\<close> back. \<open>get_free_entry\<close> looks at the first 256 bits (bytes 0 to 31)
  only: when one of them is clear, \<open>e\<close> is the first clear one, MSB first, and \<open>b'\<close>
  is \<open>b\<close> with that bit set; when all of them are set, \<open>e = -1\<close> and \<open>b' = b\<close>,
  whatever the bytes 32 to 255 hold.
\<close>

theorem free_after_get_free_entry_restores:
  assumes "length b = 256" and "get_free_entry b = (e, b')"
  shows "snd (free_bitmap_entry e b') = b \<and>
    ((\<exists>j<256. check_bit (int j) b = 0) \<longrightarrow>
       0 \<le> e \<and> e < 256 \<and> check_bit e b = 0 \<and> (\<forall>j<nat e. check_bit (int j) b = 1) \<and>
       b' = b[nat e div 8 := b ! (nat e div 8) OR msk (nat e mod 8)] \<and> check_bit e b' = 1) \<and>
    ((\<forall>j<256. check_bit (int j) b = 1) \<longrightarrow> e = - 1 \<and> b' = b)"
proof -
  from get_free_entry_cases [OF assms(2)] show ?thesis
  proof (elim disjE exE conjE)
    assume "e = - 1" "b' = b" "\<forall>j<256. check_bit (int j) b = 1"
    then show ?thesis by (auto simp: free_minus_one)
  next
    fix n
    assume n: "n < 256" "e = int n" "check_bit (int n) b = 0"
      "\<forall>j<n. check_bit (int j) b = 1"
      "b' = b[n div 8 := b ! (n div 8) OR msk (n mod 8)]"
    have len: "n div 8 < length b" using n(1) assms(1) by simp
    have clr: "b ! (n div 8) AND msk (n mod 8) = 0"
      using n(3) by (simp add: check_bit_split split: if_splits)
    have "free_bitmap_entry e b' = (0, b)"
      using free_after_set [OF n(1) len clr] n(2,5) by simp
    moreover have "check_bit e b' = 1"
    proof -
      have "(b ! (n div 8) OR msk (n mod 8)) AND msk (n mod 8) = msk (n mod 8)"
        by (simp add: bit_eq_iff bit_and_iff bit_or_iff)
      moreover have "msk (n mod 8) \<noteq> 0"
        by (simp add: msk_def push_bit_eq_mult)
      ultimately show ?thesis using n(2,5) len by (simp add: check_bit_split)
    qed
    moreover have "\<not> (\<forall>j<256. check_bit (int j) b = 1)" using n(1,3) by auto
    ultimately show ?thesis using n by simp
  qed
qed

theorem free_after_get_free_entry_restores_witness:
  "length (0xff # 0xf7 # replicate 254 (0::byte)) = 256 \<and>
   get_free_entry (0xff # 0xf7 # replicate 254 0) = (12, 0xff # 0xff # replicate 254 0) \<and>
   snd (free_bitmap_entry 12 (0xff # 0xff # replicate 254 0)) = 0xff # 0xf7 # replicate 254 0"
proof -
  have l: "length (0xff # 0xf7 # replicate 254 (0::byte)) = 256" by simp
  have g: "get_free_entry (0xff # 0xf7 # replicate 254 0) = (12, 0xff # 0xff # replicate 254 0)"
    by (simp add: get_free_entry_def BITMAP_ENTRIES_def take_msb_first_def)
  show ?thesis
    using free_after_get_free_entry_restores [OF l g] l g by simp
qed

text \<open>
  Claim C9 as it is written fails on a 256-byte bitmap that is not full: with the
  bytes 0 to 31 all \<open>0xff\<close> and byte 32 zero, the first zero bit is bit 256, but
  \<open>get_free_entry\<close> returns \<open>-1\<close> and sets nothing.
\<close>

theorem get_free_entry_first_zero_counterexample:
  "length prefix_taken_bitmap = 256 \<and> check_bit 256 prefix_taken_bitmap = 0 \<and>
   get_free_entry prefix_taken_bitmap = (- 1, prefix_taken_bitmap)"
proof -
  have "\<forall>j. 0 \<le> j \<and> j < 32 \<longrightarrow> prefix_taken_bitmap ! j = 0xff"
    by (simp add: prefix_taken_bitmap_def nth_append)
  then have "get_free_entry prefix_taken_bitmap = (- 1, prefix_taken_bitmap)"
    unfolding get_free_entry_def by (rule get_free_entry_from_all_taken)
  moreover have "check_bit 256 prefix_taken_bitmap = 0"
    by (simp add: check_bit_def prefix_taken_bitmap_def nth_append signed_divide_int_def
        signed_modulo_int_def)
  ultimately show ?thesis by (simp add: prefix_taken_bitmap_def)
qed

section \<open>Claims about the scheduler and the synchronisation primitives\<close>

text \<open>
  Claim C3, as the code has it. Let the ready ring be \<open>c # ys\<close> with \<open>c\<close> the
  running task, and let the wait queue \<open>q\<close> hold \<open>w # ws\<close>. Then \<open>unblock\<close>
  removes the head \<open>w\<close> (the queue is \<open>ws\<close> afterwards), sets its state to READY and
  links it into the ring immediately before \<open>current_running\<close>: the ring is
  \<open>c # ys @ [w]\<close>, \<open>w->next\<close> is \<open>c\<close> and \<open>c->previous\<close> is \<open>w\<close>. The round-robin
  scheduler then runs the tasks of \<open>ys\<close> first: at the \<open>n+1\<close>-th scheduling point
  the task \<open>(ys @ [w]) ! n\<close> runs, so \<open>w\<close> runs at scheduling point
  \<open>length ys + 1\<close>, the last one before \<open>c\<close> runs again. It runs at the next
  scheduling point only when \<open>c\<close> was alone in the ring.
\<close>

theorem unblock_inserts_before_current:
  assumes "ready_ring (pcbs k) (c # ys)" and "current_running k = c"
    and "wait_queue (pcbs k) q (w # ws)" and "distinct (c # ys @ w # ws)"
    and "\<forall>p \<in> set (c # ys). runnable (pcbs k) p"
  shows "\<exists>q' k'. unblock q k = Some (q', k') \<and>
     wait_queue (pcbs k') q' ws \<and> pcb_state (pcbs k' w) = STATUS_READY \<and>
     current_running k' = c \<and> ready_ring (pcbs k') (c # ys @ [w]) \<and>
     pcb_next (pcbs k' w) = c \<and> pcb_previous (pcbs k' c) = w \<and>
     (\<forall>n \<le> length ys. \<exists>k''. yields (Suc n) k' = Some k'' \<and> current_running k'' = (ys @ [w]) ! n)"
proof -
  from unblock_ring [OF assms(1-4)] obtain k' where k':
    "unblock q k = Some (pcb_next (pcbs k w), k')" "current_running k' = c"
    "ready_ring (pcbs k') (c # ys @ [w])" "wait_queue (pcbs k') (pcb_next (pcbs k w)) ws"
    "pcb_state (pcbs k' w) = STATUS_READY"
    "\<forall>p. p \<noteq> w \<longrightarrow> pcb_state (pcbs k' p) = pcb_state (pcbs k p)" by blast
  let ?xs = "c # ys @ [w]"
  have wn: "w \<notin> set (c # ys)" using assms(4) by auto
  have run: "\<forall>p \<in> set ?xs. runnable (pcbs k') p"
    using assms(5) k'(5,6) wn by (auto simp: runnable_def)
  have nw: "pcb_next (pcbs k' w) = c"
    using ring_next_nth [OF k'(3), of "Suc (length ys)"] by (simp add: nth_append)
  have pc: "pcb_previous (pcbs k' c) = w"
    using ring_previous [OF k'(3)] by simp
  have sched: "\<forall>n \<le> length ys. \<exists>k''. yields (Suc n) k' = Some k'' \<and>
      current_running k'' = (ys @ [w]) ! n"
  proof (intro allI impI)
    fix n assume n: "n \<le> length ys"
    have c0: "current_running k' = ?xs ! 0" using k'(2) by simp
    from yields_ring [OF k'(3) _ c0 run, of "Suc n"] obtain k'' where
      "yields (Suc n) k' = Some k''" "current_running k'' = ?xs ! ((0 + Suc n) mod length ?xs)"
      by auto
    moreover have "(0 + Suc n) mod length ?xs = Suc n" using n by simp
    ultimately show "\<exists>k''. yields (Suc n) k' = Some k'' \<and> current_running k'' = (ys @ [w]) ! n"
      by simp
  qed
  show ?thesis using k'(1-5) nw pc sched by blast
qed

text \<open>
  The theorem at the state \<open>ring2_waiting1\<close>: ring \<open>[1, 2]\<close>, task 3 waiting.
\<close>

theorem unblock_inserts_before_current_witness:
  "\<exists>q' k'. unblock 3 ring2_waiting1 = Some (q', k') \<and>
     wait_queue (pcbs k') q' [] \<and> pcb_state (pcbs k' 3) = STATUS_READY \<and>
     current_running k' = 1 \<and> ready_ring (pcbs k') [1, 2, 3] \<and>
     pcb_next (pcbs k' 3) = 1 \<and> pcb_previous (pcbs k' 1) = 3 \<and>
     (\<forall>n \<le> 1. \<exists>k''. yields (Suc n) k' = Some k'' \<and> current_running k'' = [2, 3] ! n)"
  using unblock_inserts_before_current [of ring2_waiting1 1 "[2]" 3 3 "[]"] ring2_waiting1_shape
  by simp

text \<open>
  Claim C3 as it is written says that the released task runs at the current task's
  next scheduling point. In the state \<open>ring2_waiting1\<close> task 1 releases task 3 and
  then yields: the task that runs is task 2, not the released task 3.
\<close>

theorem unblock_next_scheduling_point_counterexample:
  "map_option current_running (unblock_then_yield 3 ring2_waiting1) = Some 2"
  by (simp add: unblock_then_yield_def unblock_def ring2_waiting1_def yield_def scheduler_def
      dispatch_def Let_def)

text \<open>
  Claim C7. \<open>lock_release\<close> sets the status to UNLOCKED when the wait queue of the
  lock is empty, and changes nothing else. Otherwise it unblocks exactly one waiter,
  the head \<open>w\<close> of the queue: \<open>w\<close> becomes ready and joins the ring, the rest
  \<open>ws'\<close> of the queue stays, no other task changes its state, and the status of the
  lock is what it was, so a LOCKED lock remains LOCKED and passes to \<open>w\<close>.
\<close>

theorem lock_release_hands_over:
  assumes "ready_ring (pcbs k) (c # ys)" and "current_running k = c"
    and "wait_queue (pcbs k) (l_waiting l) ws" and "distinct (c # ys @ ws)"
  shows "(ws = [] \<longrightarrow> lock_release l k = Returns (l\<lparr>status := UNLOCKED\<rparr>, k)) \<and>
    (\<forall>w ws'. ws = w # ws' \<longrightarrow>
       (\<exists>l' k'. lock_release l k = Returns (l', k') \<and> status l' = status l \<and>
          wait_queue (pcbs k') (l_waiting l') ws' \<and>
          pcb_state (pcbs k' w) = STATUS_READY \<and> ready_ring (pcbs k') (c # ys @ [w]) \<and>
          (\<forall>p. p \<noteq> w \<longrightarrow> pcb_state (pcbs k' p) = pcb_state (pcbs k p))))"
proof (intro conjI allI impI)
  assume "ws = []"
  then have "l_waiting l = 0" using assms(3) by simp
  then show "lock_release l k = Returns (l\<lparr>status := UNLOCKED\<rparr>, k)"
    by (simp add: lock_release_def)
next
  fix w ws' assume ws: "ws = w # ws'"
  then have q: "l_waiting l \<noteq> 0" using assms(3) by auto
  from unblock_ring [OF assms(1,2), of "l_waiting l" w ws'] assms(3,4) ws
  obtain k' where k': "unblock (l_waiting l) k = Some (pcb_next (pcbs k w), k')"
    "ready_ring (pcbs k') (c # ys @ [w])" "wait_queue (pcbs k') (pcb_next (pcbs k w)) ws'"
    "pcb_state (pcbs k' w) = STATUS_READY"
    "\<forall>p. p \<noteq> w \<longrightarrow> pcb_state (pcbs k' p) = pcb_state (pcbs k p)" by auto
  let ?l' = "l\<lparr>l_waiting := pcb_next (pcbs k w)\<rparr>"
  have "lock_release l k = Returns (?l', k')" using q k'(1) by (simp add: lock_release_def)
  then show "\<exists>l' k'. lock_release l k = Returns (l', k') \<and> status l' = status l \<and>
          wait_queue (pcbs k') (l_waiting l') ws' \<and>
          pcb_state (pcbs k' w) = STATUS_READY \<and> ready_ring (pcbs k') (c # ys @ [w]) \<and>
          (\<forall>p. p \<noteq> w \<longrightarrow> pcb_state (pcbs k' p) = pcb_state (pcbs k p))"
    using k'(2-5) by (intro exI [of _ ?l'] exI [of _ k']) simp
qed

text \<open>
  The theorem at a locked lock with task 3 waiting, and at a locked lock with no
  waiter.
\<close>

theorem lock_release_hands_over_witness:
  "(\<exists>l' k'. lock_release \<lparr>status = LOCKED, l_waiting = 3\<rparr> ring2_waiting1 = Returns (l', k') \<and>
      status l' = LOCKED \<and> wait_queue (pcbs k') (l_waiting l') [] \<and>
      pcb_state (pcbs k' 3) = STATUS_READY \<and> ready_ring (pcbs k') [1, 2, 3]) \<and>
   lock_release \<lparr>status = LOCKED, l_waiting = 0\<rparr> ring3
     = Returns (\<lparr>status = UNLOCKED, l_waiting = 0\<rparr>, ring3)"
proof -
  have r3: "ready_ring (pcbs ring3) [1, 2, 3]" "current_running ring3 = 1"
    by (simp_all add: ready_ring_def ring3_def)
  have a: "lock_release \<lparr>status = LOCKED, l_waiting = 0\<rparr> ring3
     = Returns (\<lparr>status = UNLOCKED, l_waiting = 0\<rparr>, ring3)"
    using lock_release_hands_over [of ring3 1 "[2, 3]" "\<lparr>status = LOCKED, l_waiting = 0\<rparr>" "[]"] r3
    by simp
  have b: "\<exists>l' k'. lock_release \<lparr>status = LOCKED, l_waiting = 3\<rparr> ring2_waiting1 = Returns (l', k') \<and>
      status l' = LOCKED \<and> wait_queue (pcbs k') (l_waiting l') [] \<and>
      pcb_state (pcbs k' 3) = STATUS_READY \<and> ready_ring (pcbs k') [1, 2, 3]"
    using lock_release_hands_over [of ring2_waiting1 1 "[2]" "\<lparr>status = LOCKED, l_waiting = 3\<rparr>" "[3]"]
      ring2_waiting1_shape by simp blast
  show ?thesis using a b by blast
qed

text \<open>
  Claim C2 fails on the code. A semaphore starts at 0; task 1 and task 2 call
  \<open>semaphore_down\<close> and block (counter \<open>-2\<close>), then task 3 calls \<open>semaphore_up\<close>.
  The counter is \<open>-1\<close>, the test \<open>counter >= 0\<close> of \<open>semaphore_up\<close> fails and
  nobody is unblocked: two tasks are on the wait queue, where the claim has
  \<open>max(0, 1) = 1\<close>.
\<close>

theorem semaphore_up_leaves_waiters_blocked:
  "\<exists>s k. sem_calls [Down, Down, Up] (\<lparr>counter = 0, s_waiting = 0\<rparr>, ring3) = Some (s, k) \<and>
     counter s = - 1 \<and> wait_queue (pcbs k) (s_waiting s) [1, 2] \<and>
     pcb_state (pcbs k 1) = STATUS_BLOCKED \<and> pcb_state (pcbs k 2) = STATUS_BLOCKED \<and>
     current_running k = 3"
  by (simp add: semaphore_down_def semaphore_up_def block_def scheduler_def dispatch_def
      Let_def ring3_def queue_tail.simps)

section \<open>Claims about the mailboxes\<close>

text \<open>
  Claim C5. Let the mailbox \<open>q\<close> be otherwise empty: no message, both cursors at
  the same place inside the buffer, the lock free and no task waiting. Let the
  message \<open>m\<close> have a non-negative payload size and fit, header and payload, in the
  buffer. Then \<open>mbox_send\<close> returns without suspending the caller, \<open>mbox_recv\<close>
  after it returns as well, and the bytes it stores into \<open>m2\<close> are the header and
  the payload of \<open>m\<close>; the bytes of \<open>m2\<close> behind the message are untouched and the
  mailbox is empty again.
\<close>

theorem mbox_send_recv_roundtrip:
  assumes key: "0 \<le> q" "q < MAX_MBOX Q"
    and idle: "status (mbox_l (Q ! nat q)) = UNLOCKED" "l_waiting (mbox_l (Q ! nat q)) = 0"
      "c_waiting (moreSpace (Q ! nat q)) = 0" "c_waiting (moreData (Q ! nat q)) = 0"
    and empty: "count (Q ! nat q) = 0" "head (Q ! nat q) = tail (Q ! nat q)"
      "0 \<le> head (Q ! nat q)" "head (Q ! nat q) < BUFFER_SIZE (Q ! nat q)"
    and msg: "4 \<le> msg_bytes m" "msg_bytes m \<le> BUFFER_SIZE (Q ! nat q)"
      "msg_bytes m \<le> int (length m)" "msg_bytes m \<le> int (length m2)"
  shows "\<exists>Q1 Q2 m2'. mbox_send q m Q k = Returns (Q1, k) \<and>
     mbox_recv q m2 Q1 k = Returns (m2', Q2, k) \<and>
     take (nat (msg_bytes m)) m2' = take (nat (msg_bytes m)) m \<and>
     drop (nat (msg_bytes m)) m2' = drop (nat (msg_bytes m)) m2 \<and>
     count (Q2 ! nat q) = 0 \<and> head (Q2 ! nat q) = tail (Q2 ! nat q) \<and>
     status (mbox_l (Q2 ! nat q)) = UNLOCKED"
proof -
  define mb where "mb = Q ! nat q"
  define B where "B = BUFFER_SIZE mb"
  define n where "n = nat (msg_bytes m)"
  define st where "st = head mb"
  have qlt: "nat q < length Q" using key by (simp add: MAX_MBOX_def)
  have Bpos: "0 < B" using empty(3,4) by (simp add: B_def mb_def)
  have Blen: "int (length (buffer mb)) = B" by (simp add: B_def BUFFER_SIZE_def)
  have ne: "buffer mb \<noteq> []" using Bpos Blen by auto
  have n4: "4 \<le> n" "int n = msg_bytes m" "int n \<le> B" "n \<le> length m" "n \<le> length m2"
    using msg by (simp_all add: n_def B_def mb_def)
  have st0: "0 \<le> st" using empty(3) by (simp add: st_def mb_def)
  define l1 where "l1 = (mbox_l mb)\<lparr>status := LOCKED\<rparr>"
  define Q1 where "Q1 = Q[nat q := mb\<lparr>mbox_l := l1\<rparr>]"
  have acq: "mbox_acquire q Q k = Returns (Q1, k)"
    using key idle(1)
    by (simp add: mbox_acquire_def lock_acquire_def lock_acquire_helper_def Q1_def l1_def mb_def)
  have sp: "space_available (mb\<lparr>mbox_l := l1\<rparr>) = B"
    using empty(1,2) by (simp add: space_available_def mb_def B_def BUFFER_SIZE_def)
  define buf1 where "buf1 = copy_in B st m n (buffer mb)"
  define hd1 where "hd1 = (st + msg_bytes m) smod B"
  define mbs where "mbs = mb\<lparr>mbox_l := mbox_l mb, buffer := buf1, head := hd1, count := 1\<rparr>"
  define Qs where "Qs = Q[nat q := mbs]"
  have unl: "(mbox_l mb)\<lparr>status := LOCKED, status := UNLOCKED\<rparr> = mbox_l mb"
    using idle(1) by (simp add: mb_def)
  have send: "mbox_send q m Q k = Returns (Qs, k)"
    using acq qlt sp n4 st0 Bpos idle empty(1) ne
    by (simp add: mbox_send_def Let_def Q1_def mbox_release_def lock_release_def l1_def
        condition_broadcast_empty Blen BUFFER_SIZE_def mb_def [symmetric]
        st_def [symmetric] n_def [symmetric] buf1_def Qs_def mbs_def hd1_def unl)
  have mbs_q: "Qs ! nat q = mbs" using qlt by (simp add: Qs_def)
  have mbs_f: "status (mbox_l mbs) = UNLOCKED" "l_waiting (mbox_l mbs) = 0"
    "c_waiting (moreSpace mbs) = 0" "count mbs = 1" "tail mbs = st" "buffer mbs = buf1"
    "head mbs = hd1" "BUFFER_SIZE mbs = B"
    using idle empty(2)
    by (simp_all add: mbs_def mb_def st_def B_def BUFFER_SIZE_def buf1_def length_copy_in)
  define m1 where "m1 = copy_out B st buf1 4 m2"
  have m1len: "length m1 = length m2" by (simp add: m1_def length_copy_out)
  have four: "int 4 \<le> B" "4 \<le> length m2" "4 \<le> length m" using n4 by simp_all
  have m1eq: "m1 = take 4 m @ drop 4 m2"
  proof -
    have "map (\<lambda>i. buf1 ! ring_index B st i) [0..<4] = map (\<lambda>i. m ! i) [0..<4]"
      using copy_in_nth [OF st0 Bpos Blen n4(3), of _ m] n4(1)
      by (intro map_cong refl) (simp add: buf1_def)
    also have "\<dots> = take 4 m" using four(3) by (intro nth_equalityI) simp_all
    finally show ?thesis using four(2) by (simp add: m1_def copy_out_eq)
  qed
  have "msg_size m1 = msg_size m"
    using four by (intro msg_size_cong) (simp_all add: m1eq)
  then have m1b: "msg_bytes m1 = msg_bytes m" by (simp add: msg_bytes_def)
  define m3 where "m3 = copy_out B st buf1 n m1"
  have m3eq: "m3 = take n m @ drop n m2"
  proof -
    have "m3 = take n m @ drop n m1"
      unfolding m3_def buf1_def
      using copy_in_out [OF st0 Bpos Blen n4(3) _ n4(4), of m1] n4(5) m1len by simp
    moreover have "drop n m1 = drop n m2" using n4(1) four by (simp add: m1eq)
    ultimately show ?thesis by simp
  qed
  define mbr where "mbr = mbs\<lparr>tail := hd1, count := 0\<rparr>"
  define l2 where "l2 = (mbox_l mbs)\<lparr>status := LOCKED\<rparr>"
  have acq2: "mbox_acquire q Qs k = Returns (Qs[nat q := mbs\<lparr>mbox_l := l2\<rparr>], k)"
    using key mbs_f(1) mbs_q
    by (simp add: mbox_acquire_def lock_acquire_def lock_acquire_helper_def l2_def
        MAX_MBOX_def Qs_def)
  have unl2: "(mbox_l mbs)\<lparr>status := LOCKED, status := UNLOCKED\<rparr> = mbox_l mbs"
    using mbs_f(1) by simp
  have recv: "mbox_recv q m2 Qs k = Returns (m3, Qs[nat q := mbr], k)"
    using acq2 qlt mbs_f(1-7) n4 st0 Bpos four m1b m1len mbs_f(8) [unfolded BUFFER_SIZE_def]
    by (simp add: mbox_recv_def Let_def mbox_release_def lock_release_def l2_def
        condition_broadcast_empty BUFFER_SIZE_def m1_def [symmetric] m3_def [symmetric]
        n_def [symmetric] Qs_def mbr_def hd1_def unl2)
  have fin: "(Qs[nat q := mbr]) ! nat q = mbr" using qlt by (simp add: Qs_def)
  show ?thesis
    using send recv m3eq n4 fin mbs_f(1,7)
    by (intro exI [of _ Qs] exI [of _ "Qs[nat q := mbr]"] exI [of _ m3])
      (simp add: n_def [symmetric] mbr_def)
qed

text \<open>
  The theorem at a message with two payload bytes and a buffer of eight bytes with
  both cursors at 5, so that the message wraps around the end of the buffer.
\<close>

theorem mbox_send_recv_roundtrip_witness:
  "\<exists>Q1 Q2 m2'. mbox_send 0 [2, 0, 0, 0, 7, 8] [empty_mbox 8 5] ring3 = Returns (Q1, ring3) \<and>
     mbox_recv 0 (replicate 6 0) Q1 ring3 = Returns (m2', Q2, ring3) \<and>
     take 6 m2' = [2, 0, 0, 0, 7, 8] \<and> drop 6 m2' = [] \<and>
     count (Q2 ! 0) = 0 \<and> head (Q2 ! 0) = tail (Q2 ! 0) \<and>
     status (mbox_l (Q2 ! 0)) = UNLOCKED"
  using mbox_send_recv_roundtrip [of 0 "[empty_mbox 8 5]" "[2, 0, 0, 0, 7, 8]" "replicate 6 0" ring3]
  by (simp add: msg_bytes_example MAX_MBOX_def empty_mbox_def BUFFER_SIZE_def)

section \<open>Claims about the image builder\<close>




section \<open>Claims about the filesystem\<close>

text \<open>
  Claim C10. When the slot \<open>fd\<close> of the open-file table has mode \<open>MODE_UNUSED\<close>,
  \<open>fs_close fd\<close> returns \<open>FSE_OK\<close> and the whole state is unchanged: the open-file
  table, every in-memory inode with its \<open>open_count\<close> and \<open>pos\<close>, the bitmaps and the
  disk.
\<close>

theorem fs_close_unused_noop:
  "fd_mode (filedes st fd) = MODE_UNUSED \<Longrightarrow> fs_close fd st = (FSE_OK, st)"
  by (simp add: fs_close_def)

theorem fs_close_unused_noop_witness:
  "fd_mode (filedes (empty_file_fs MODE_RDWR) 5) = MODE_UNUSED \<and>
   fs_close 5 (empty_file_fs MODE_RDWR) = (FSE_OK, empty_file_fs MODE_RDWR)"
proof -
  have h: "fd_mode (filedes (empty_file_fs MODE_RDWR) 5) = MODE_UNUSED"
    by (simp add: empty_file_fs_def)
  show ?thesis using h fs_close_unused_noop [OF h] by simp
qed

text \<open>
  Claim C6 fails on the code. The masks of the two mode tests contain \<open>MODE_RDWR = 3\<close>,
  so both are 3 and every mode with bit 0 or bit 1 set passes both tests. On a file
  holding \<open>abc\<close>, \<open>fs_read\<close> on a descriptor of mode \<open>MODE_WRONLY\<close> returns 3 and
  delivers \<open>abc\<close>, where the claim has \<open>FSE_INVALIDMODE\<close>; \<open>fs_write\<close> of one byte
  on a descriptor of mode \<open>MODE_RDONLY\<close> returns 1 and changes the first byte of the
  data block on the disk, where the claim has \<open>FSE_INVALIDMODE\<close>.
\<close>

theorem fs_read_write_ignore_access_mode:
  "fs_read example_config 0 [0, 0, 0] 3 (abc_file_fs MODE_WRONLY 0)
     = (3, [0x61, 0x62, 0x63], abc_file_fs MODE_WRONLY 3) \<and>
   fst (fs_write example_config 0 [0x78] 1 (abc_file_fs MODE_RDONLY 0)) = 1 \<and>
   take 3 (disk (snd (fs_write example_config 0 [0x78] 1 (abc_file_fs MODE_RDONLY 0))) 45)
     = [0x78, 0x62, 0x63]"
  by (simp add: fs_eval_defs abc_file_fs_def)

text \<open>
  Claim C4 fails on the code. On an empty file and a descriptor of mode
  \<open>MODE_WRONLY\<close>, \<open>fs_lseek fd 10 SEEK_SET\<close> is within \<open>max_filesize = 4096\<close> and
  \<open>resize_inode\<close> succeeds: the size of the file becomes 10. The result \<open>FSE_OK = 0\<close>
  of \<open>resize_inode\<close> is tested with \<open>!\<close>, so \<open>fs_lseek\<close> returns \<open>FSE_FULL\<close> and
  leaves the position at 0, where the claim has \<open>FSE_OK\<close> and the position 10. On a
  descriptor of mode \<open>MODE_RDWR\<close>, which permits writing, the test
  \<open>mode & MODE_RDONLY\<close> is true and the same call returns \<open>FSE_EOF\<close> with nothing
  changed.
\<close>

theorem fs_lseek_extend_returns_full:
  "fst (fs_lseek example_config 0 10 SEEK_SET (empty_file_fs MODE_WRONLY)) = FSE_FULL \<and>
   pos (inodes (snd (fs_lseek example_config 0 10 SEEK_SET (empty_file_fs MODE_WRONLY))) 1) = 0 \<and>
   d_size (d_inode (inodes (snd (fs_lseek example_config 0 10 SEEK_SET (empty_file_fs MODE_WRONLY))) 1)) = 10 \<and>
   fs_lseek example_config 0 10 SEEK_SET (empty_file_fs MODE_RDWR) = (FSE_EOF, empty_file_fs MODE_RDWR)"
  by (simp add: fs_eval_defs empty_file_fs_def)

text \<open>
  Claim C1 fails on the code. On the empty file of \<open>empty_file_fs\<close>, through a
  descriptor of mode \<open>MODE_RDWR\<close>: write 600 bytes, seek to 0, write 3 bytes, seek to
  0. Every call succeeds; the file has 3 bytes, the position is 0, and direct slot 1
  still holds data block 2, whose bit in the data bitmap is clear, because the shrink
  branch of \<open>resize_inode\<close> frees the bit without resetting \<open>direct[x]\<close> to \<open>-1\<close>.
  Now \<open>fs_write\<close> of 1025 bytes (1024 bytes \<open>0x61\<close> and one byte \<open>0x62\<close>) returns
  1025, \<open>fs_lseek fd 0 SEEK_SET\<close> returns \<open>FSE_OK\<close> and \<open>fs_read\<close> of 1025 bytes
  returns 1025, but the buffer read differs from the buffer written: direct slot 2
  got block 2 again, so byte 1024 of the file was written over byte 512, and byte 512
  reads as \<open>0x62\<close>, not \<open>0x61\<close>.
\<close>

theorem fs_write_lseek_read_after_shrink:
  "\<exists>st1 st2 st3 st4 st5 st6 st7 buf2.
     fs_write example_config 0 (replicate 600 0x61) 600 (empty_file_fs MODE_RDWR) = (600, st1) \<and>
     fs_lseek example_config 0 0 SEEK_SET st1 = (FSE_OK, st2) \<and>
     fs_write example_config 0 [0x62, 0x62, 0x62] 3 st2 = (3, st3) \<and>
     fs_lseek example_config 0 0 SEEK_SET st3 = (FSE_OK, st4) \<and>
     fd_mode (filedes st4 0) = MODE_RDWR \<and> pos (inodes st4 1) = 0 \<and>
     d_direct (d_inode (inodes st4 1)) = [1, 2, - 1, - 1, - 1, - 1, - 1, - 1] \<and>
     check_bit 2 (disk st4 12) = 0 \<and>
     fs_write example_config 0 (replicate 1024 0x61 @ [0x62]) 1025 st4 = (1025, st5) \<and>
     d_direct (d_inode (inodes st5 1)) = [1, 2, 2, - 1, - 1, - 1, - 1, - 1] \<and>
     fs_lseek example_config 0 0 SEEK_SET st5 = (FSE_OK, st6) \<and>
     fs_read example_config 0 (replicate 1025 0) 1025 st6 = (1025, buf2, st7) \<and>
     buf2 = replicate 512 0x61 @ (0x62 # replicate 511 0x61) @ [0x62] \<and>
     buf2 ! 512 = 0x62 \<and> (replicate 1024 0x61 @ [0x62]) ! 512 = (0x61 :: byte)"
proof -
  let ?d = "[1, 2, - 1, - 1, - 1, - 1, - 1, - 1] :: int list"
  let ?b2 = "replicate 88 0x61 @ replicate 424 (0 :: byte)"
  let ?s4 = "one_file_fs 3 0 ?d 0xC0 ([0x62, 0x62, 0x62] @ replicate 509 0x61) ?b2"
  let ?s5 = "one_file_fs 1025 1025 [1, 2, 2, - 1, - 1, - 1, - 1, - 1] 0xE0
         (replicate 512 0x61) (0x62 # replicate 511 0x61)"
  have 1: "fs_write example_config 0 (replicate 600 0x61) 600 (empty_file_fs MODE_RDWR)
      = (600, one_file_fs 600 600 ?d 0xE0 (replicate 512 0x61) ?b2)"
    unfolding empty_file_fs_rdwr by (rule write_600_bytes)
  have 2: "fs_lseek example_config 0 0 SEEK_SET (one_file_fs 600 600 ?d 0xE0 (replicate 512 0x61) ?b2)
      = (FSE_OK, one_file_fs 600 0 ?d 0xE0 (replicate 512 0x61) ?b2)"
    by (simp add: lseek_start)
  have 4: "fs_lseek example_config 0 0 SEEK_SET
        (one_file_fs 3 3 ?d 0xC0 ([0x62, 0x62, 0x62] @ replicate 509 0x61) ?b2)
      = (FSE_OK, ?s4)"
    by (simp add: lseek_start)
  have v4: "fd_mode (filedes ?s4 0) = MODE_RDWR" "pos (inodes ?s4 1) = 0"
    "d_direct (d_inode (inodes ?s4 1)) = ?d" "check_bit 2 (disk ?s4 12) = 0"
    by (simp_all add: one_file_fs_def check_bit_def msk_simps signed_divide_int_def
        signed_modulo_int_def)
  have v5: "d_direct (d_inode (inodes ?s5 1)) = [1, 2, 2, - 1, - 1, - 1, - 1, - 1]"
    by (simp add: one_file_fs_def)
  have 6: "fs_lseek example_config 0 0 SEEK_SET ?s5
      = (FSE_OK, one_file_fs 1025 0 [1, 2, 2, - 1, - 1, - 1, - 1, - 1] 0xE0
         (replicate 512 0x61) (0x62 # replicate 511 0x61))"
    by (simp add: lseek_start)
  have n: "(replicate 512 0x61 @ (0x62 # replicate 511 0x61) @ [0x62]) ! 512 = (0x62 :: byte)"
    "(replicate 1024 0x61 @ [0x62]) ! 512 = (0x61 :: byte)"
    by (simp_all add: nth_append)
  show ?thesis
    using 1 2 write_3_bytes_shrinks 4 v4 write_1025_bytes_reuses_block v5 6 read_1025_bytes n by blast
qed

end
